theory Spec2Isabelle
  imports Main "HOL-Library.AList"
begin

section \<open>Strings, numbers and errors\<close>

text \<open>
  A JavaScript string is a sequence of UTF-16 code units. The code only ever compares a
  character's code with the ASCII ranges of the letters, tests it for white space and copies it
  unchanged, so a character is modelled by its code unit, a natural number, and a string by the
  list of its code units. A character outside the Basic Multilingual Plane is two code units,
  neither of which is a letter, so iterating by code unit and by code point give the same result
  in \<open>crypt\<close>.
\<close>

type_synonym jschar = nat
type_synonym jsstring = "jschar list"

definition js :: "string \<Rightarrow> jsstring" where
  "js s = map of_char s"

text \<open>
  Every \<open>throw new OperationError(...)\<close> of the source is one constructor, named after its
  message; the component name that the pair-map errors carry is kept. \<open>TypeError\<close> is what
  JavaScript itself raises when a property of \<open>undefined\<close> is read.
\<close>

datatype error =
    A2iNotUppercase
  | I2aOutOfRange
  | RotorWiringFormat
  | RotorStepsFormat
  | RotorRingFormat
  | RotorPositionFormat
  | RotorWiringNotUnique
  | RotorStepsNotUnique
  | PairFormat string
  | PairSelf string jschar
  | PairTwice string jschar
  | ReflectorIncomplete
  | RotorCount
  | TypeError

text \<open>Modelled from the spec: \<open>Utils.ord\<close>, \<open>Utils.chr\<close> and \<open>Utils.mod\<close> live in
  \<open>../Utils\<close>, which is not among the sources. The spec describes the first two as the
  mapping between a character and its code and the third as normalisation modulo 26 into
  \<open>0..25\<close>, also for a negative argument.\<close>

definition Utils_ord :: "jschar \<Rightarrow> int" where
  "Utils_ord c = int c"

definition Utils_chr :: "int \<Rightarrow> jschar" where
  "Utils_chr i = nat i"

definition Utils_mod :: "int \<Rightarrow> int \<Rightarrow> int" where
  "Utils_mod x y = x mod y"

definition LETTERS :: "jsstring" where
  "LETTERS = js ''ABCDEFGHIJKLMNOPQRSTUVWXYZ''"

definition a2i :: "jschar \<Rightarrow> bool \<Rightarrow> error + int" where
  "a2i c permissive =
     (let i = Utils_ord c in
      if i \<ge> 65 \<and> i \<le> 90 then Inr (i - 65)
      else if permissive then
        (if i \<ge> 97 \<and> i \<le> 122 then Inr (i - 97) else Inr (- 1))
      else Inl A2iNotUppercase)"

definition i2a :: "int \<Rightarrow> error + jschar" where
  "i2a i = (if i \<ge> 0 \<and> i < 26 then Inr (Utils_chr (i + 65)) else Inl I2aOutOfRange)"

text \<open>The regular expressions \<open>/^[A-Z]{lo,hi}$/\<close>: without the \<open>m\<close> flag \<open>$\<close> matches at
  the end of the input only, so the whole string is between \<open>lo\<close> and \<open>hi\<close> capital
  letters.\<close>

definition is_AZ :: "jschar \<Rightarrow> bool" where
  "is_AZ c \<longleftrightarrow> 65 \<le> c \<and> c \<le> 90"

definition match_AZ :: "nat \<Rightarrow> nat \<Rightarrow> jsstring \<Rightarrow> bool" where
  "match_AZ lo hi s \<longleftrightarrow> lo \<le> length s \<and> length s \<le> hi \<and> list_all is_AZ s"

section \<open>Rotor\<close>

text \<open>
  The objects \<open>this.map\<close> and \<open>this.revMap\<close> are association lists with distinct keys,
  so that \<open>Object.keys(...).length\<close> is the length of the list; \<open>this.steps\<close>, a
  \<open>Set\<close>, is a set. A property that was never assigned reads as \<open>undefined\<close>, and
  arithmetic on it gives \<open>NaN\<close>: that is the value \<open>None\<close> of the transforms.
\<close>

type_synonym jsobject = "(int \<times> int) list"

record Rotor =
  map_r :: jsobject
  revMap :: jsobject
  steps :: "int set"
  pos :: int

fun wire :: "jsstring \<Rightarrow> nat list \<Rightarrow> jsobject \<times> jsobject \<Rightarrow> error + (jsobject \<times> jsobject)" where
  "wire wiring [] mr = Inr mr"
| "wire wiring (i # is) (m, rm) =
     (case a2i (LETTERS ! i) False of
        Inl e \<Rightarrow> Inl e
      | Inr a \<Rightarrow>
          (case a2i (wiring ! i) False of
             Inl e \<Rightarrow> Inl e
           | Inr b \<Rightarrow> wire wiring is (AList.update a b m, AList.update b a rm)))"

fun add_steps :: "jsstring \<Rightarrow> int \<Rightarrow> int set \<Rightarrow> error + int set" where
  "add_steps [] rs S = Inr S"
| "add_steps (x # xs) rs S =
     (case a2i x False of
        Inl e \<Rightarrow> Inl e
      | Inr a \<Rightarrow> add_steps xs rs (insert (Utils_mod (a - rs) 26) S))"

definition new_Rotor :: "jsstring \<Rightarrow> jsstring \<Rightarrow> jsstring \<Rightarrow> jsstring \<Rightarrow> error + Rotor" where
  "new_Rotor wiring stepsStr ringSetting initialPosition =
     (if \<not> match_AZ 26 26 wiring then Inl RotorWiringFormat
      else if \<not> match_AZ 0 26 stepsStr then Inl RotorStepsFormat
      else if \<not> match_AZ 1 1 ringSetting then Inl RotorRingFormat
      else if \<not> match_AZ 1 1 initialPosition then Inl RotorPositionFormat
      else
        (case wire wiring [0 ..< length LETTERS] ([], []) of
           Inl e \<Rightarrow> Inl e
         | Inr (m, rm) \<Rightarrow>
             if length rm \<noteq> length LETTERS then Inl RotorWiringNotUnique
             else
               (case a2i (ringSetting ! 0) False of
                  Inl e \<Rightarrow> Inl e
                | Inr rs \<Rightarrow>
                    (case add_steps stepsStr rs {} of
                       Inl e \<Rightarrow> Inl e
                     | Inr S \<Rightarrow>
                         if card S \<noteq> length stepsStr then Inl RotorStepsNotUnique
                         else
                           (case a2i (initialPosition ! 0) False of
                              Inl e \<Rightarrow> Inl e
                            | Inr p \<Rightarrow>
                                Inr \<lparr>map_r = m, revMap = rm, steps = S,
                                     pos = Utils_mod (p - rs) 26\<rparr>)))))"

definition Rotor_step :: "Rotor \<Rightarrow> Rotor" where
  "Rotor_step r = r\<lparr>pos := Utils_mod (pos r + 1) 26\<rparr>"

definition Rotor_transform :: "Rotor \<Rightarrow> int \<Rightarrow> int option" where
  "Rotor_transform r c =
     (case map_of (map_r r) (Utils_mod (c + pos r) 26) of
        None \<Rightarrow> None
      | Some v \<Rightarrow> Some (Utils_mod (v - pos r) 26))"

definition Rotor_revTransform :: "Rotor \<Rightarrow> int \<Rightarrow> int option" where
  "Rotor_revTransform r c =
     (case map_of (revMap r) (Utils_mod (c + pos r) 26) of
        None \<Rightarrow> None
      | Some v \<Rightarrow> Some (Utils_mod (v - pos r) 26))"

section \<open>Plugboard and reflector\<close>

text \<open>White space as \<open>\s\<close> matches it, and \<open>split(/\s+/)\<close>: the pieces between the
  maximal runs of white space, with an empty piece before a leading and after a trailing run.\<close>

definition is_ws :: "jschar \<Rightarrow> bool" where
  "is_ws c \<longleftrightarrow>
     c \<in> {9, 10, 11, 12, 13, 32, 160, 5760, 8232, 8233, 8239, 8287, 12288, 65279}
     \<or> (8192 \<le> c \<and> c \<le> 8202)"

function split_ws :: "jsstring \<Rightarrow> jsstring list" where
  "split_ws s =
     (let tok = takeWhile (\<lambda>c. \<not> is_ws c) s;
          rest = dropWhile (\<lambda>c. \<not> is_ws c) s
      in if rest = [] then [tok] else tok # split_ws (dropWhile is_ws rest))"
  by pat_completeness auto
termination
proof (relation "measure length")
  fix s tok rest
  assume r: "rest = dropWhile (\<lambda>c. \<not> is_ws c) s" and ne: "rest \<noteq> []"
  have "is_ws (hd rest)"
    using ne hd_dropWhile [of "\<lambda>c. \<not> is_ws c" s] unfolding r by simp
  then have "length (dropWhile is_ws rest) \<le> length (tl rest)"
    using ne by (cases rest) (simp_all add: length_dropWhile_le)
  moreover have "length (tl rest) < length rest"
    using ne by (cases rest) auto
  moreover have "length rest \<le> length s"
    unfolding r by (rule length_dropWhile_le)
  ultimately show "(dropWhile is_ws rest, s) \<in> measure length"
    by simp
qed simp

type_synonym PairMapBase = jsobject

fun add_pairs :: "string \<Rightarrow> jsstring list \<Rightarrow> PairMapBase \<Rightarrow> error + PairMapBase" where
  "add_pairs name [] m = Inr m"
| "add_pairs name (pair # ps) m =
     (if \<not> match_AZ 2 2 pair then Inl (PairFormat name)
      else
        (case a2i (pair ! 0) False of
           Inl e \<Rightarrow> Inl e
         | Inr a \<Rightarrow>
             (case a2i (pair ! 1) False of
                Inl e \<Rightarrow> Inl e
              | Inr b \<Rightarrow>
                  if a = b then Inl (PairSelf name (pair ! 0))
                  else if map_of m a \<noteq> None then Inl (PairTwice name (pair ! 0))
                  else if map_of m b \<noteq> None then Inl (PairTwice name (pair ! 1))
                  else add_pairs name ps (AList.update b a (AList.update a b m)))))"

definition new_PairMapBase :: "jsstring \<Rightarrow> string \<Rightarrow> error + PairMapBase" where
  "new_PairMapBase pairs name =
     (if pairs = [] then Inr [] else add_pairs name (split_ws pairs) [])"

definition PairMapBase_transform :: "PairMapBase \<Rightarrow> int \<Rightarrow> int" where
  "PairMapBase_transform m c = (case map_of m c of None \<Rightarrow> c | Some v \<Rightarrow> v)"

definition PairMapBase_revTransform :: "PairMapBase \<Rightarrow> int \<Rightarrow> int" where
  "PairMapBase_revTransform m c = PairMapBase_transform m c"

definition new_Reflector :: "jsstring \<Rightarrow> error + PairMapBase" where
  "new_Reflector pairs =
     (case new_PairMapBase pairs ''Reflector'' of
        Inl e \<Rightarrow> Inl e
      | Inr m \<Rightarrow> if length m \<noteq> 26 then Inl ReflectorIncomplete else Inr m)"

definition new_Plugboard :: "jsstring \<Rightarrow> error + PairMapBase" where
  "new_Plugboard pairs = new_PairMapBase pairs ''Plugboard''"

section \<open>The machine\<close>

text \<open>
  \<open>this.rotorsRev\<close> is a reversed copy of the array \<open>this.rotors\<close> that holds the same
  \<open>Rotor\<close> objects: a rotor stepped through \<open>rotors\<close> is stepped in \<open>rotorsRev\<close> too. The
  model keeps the rotors once and reads \<open>rotorsRev\<close> as the reversed list. The rotors of one
  machine are taken to be distinct objects, as \<open>run\<close> creates them.
\<close>

record EnigmaBase =
  rotors :: "Rotor list"
  reflector :: PairMapBase
  plugboard :: PairMapBase

definition rotorsRev :: "EnigmaBase \<Rightarrow> Rotor list" where
  "rotorsRev m = rev (rotors m)"

definition new_EnigmaBase :: "Rotor list \<Rightarrow> PairMapBase \<Rightarrow> PairMapBase \<Rightarrow> EnigmaBase" where
  "new_EnigmaBase rs rf pb = \<lparr>rotors = rs, reflector = rf, plugboard = pb\<rparr>"

definition new_EnigmaMachine :: "Rotor list \<Rightarrow> PairMapBase \<Rightarrow> PairMapBase \<Rightarrow> error + EnigmaBase" where
  "new_EnigmaMachine rs rf pb =
     (let m = new_EnigmaBase rs rf pb
      in if length rs \<noteq> 3 \<and> length rs \<noteq> 4 then Inl RotorCount else Inr m)"

text \<open>\<open>step\<close>: with fewer than two rotors \<open>r0\<close> or \<open>r1\<close> is \<open>undefined\<close> and reading its
  property raises; \<open>r2\<close> is read only inside the inner branch.\<close>

definition step :: "EnigmaBase \<Rightarrow> error + EnigmaBase" where
  "step m =
     (let rs = rotors m in
      if length rs < 2 then Inl TypeError
      else
        let r0 = Rotor_step (rs ! 0); r1 = rs ! 1 in
        if pos r0 \<in> steps r0 \<or> Utils_mod (pos r1 + 1) 26 \<in> steps r1 then
          let r1' = Rotor_step r1 in
          if pos r1' \<in> steps r1' then
            if length rs < 3 then Inl TypeError
            else Inr (m\<lparr>rotors := rs[0 := r0, 1 := r1', 2 := Rotor_step (rs ! 2)]\<rparr>)
          else Inr (m\<lparr>rotors := rs[0 := r0, 1 := r1']\<rparr>)
        else Inr (m\<lparr>rotors := rs[0 := r0]\<rparr>))"

text \<open>The signal path of one letter, after the rotors have stepped: plugboard, the rotors in
  order, the reflector, the rotors in reverse order, the plugboard again. \<open>NaN\<close> passes
  through every component and is rejected by \<open>i2a\<close>.\<close>

definition signal :: "EnigmaBase \<Rightarrow> int \<Rightarrow> int option" where
  "signal m letter0 =
     (let letter1 = Some (PairMapBase_transform (plugboard m) letter0);
          letter2 = fold (\<lambda>rotor letter. Option.bind letter (Rotor_transform rotor)) (rotors m) letter1;
          letter3 = map_option (PairMapBase_transform (reflector m)) letter2;
          letter4 = fold (\<lambda>rotor letter. Option.bind letter (Rotor_revTransform rotor)) (rotorsRev m) letter3
      in map_option (PairMapBase_revTransform (plugboard m)) letter4)"

fun crypt_loop :: "EnigmaBase \<Rightarrow> jsstring \<Rightarrow> jsstring \<Rightarrow> error + (EnigmaBase \<times> jsstring)" where
  "crypt_loop m result [] = Inr (m, result)"
| "crypt_loop m result (l # ls) =
     (case a2i l True of
        Inl e \<Rightarrow> Inl e
      | Inr letter \<Rightarrow>
          if letter = - 1 then crypt_loop m (result @ [l]) ls
          else
            (case step m of
               Inl e \<Rightarrow> Inl e
             | Inr m' \<Rightarrow>
                 (case signal m' letter of
                    None \<Rightarrow> Inl I2aOutOfRange
                  | Some i \<Rightarrow>
                      (case i2a i of
                         Inl e \<Rightarrow> Inl e
                       | Inr ch \<Rightarrow> crypt_loop m' (result @ [ch]) ls))))"

definition crypt :: "EnigmaBase \<Rightarrow> jsstring \<Rightarrow> error + (EnigmaBase \<times> jsstring)" where
  "crypt m input = crypt_loop m [] input"

section \<open>The operation\<close>

text \<open>\<open>ROTORS\<close> and \<open>REFLECTORS\<close>, the catalogue of the historical wirings.\<close>

definition ROTORS :: "(string \<times> jsstring) list" where
  "ROTORS =
     [(''I'', js ''EKMFLGDQVZNTOWYHXUSPAIBRCJ<R''),
      (''II'', js ''AJDKSIRUXBLHWTMCQGZNPYFVOE<F''),
      (''III'', js ''BDFHJLCPRTXVZNYEIWGAKMUSQO<W''),
      (''IV'', js ''ESOVPZJAYQUIRHXLNFTGKDCMWB<K''),
      (''V'', js ''VZBRGITYUPSDNHLXAWMJQOFECK<A''),
      (''VI'', js ''JPGVOUMFYQBENHZRDKASXLICTW<AN''),
      (''VII'', js ''NZJHGRCXMYSWBOUFAIVLPEKQDT<AN''),
      (''VIII'', js ''FKQHTLXOCBJSPDZRAMEWNIUYGV<AN''),
      (''Beta'', js ''LEYJVCNIXWPBQMDRTAKZGFUHOS''),
      (''Gamma'', js ''FSOKANUERHMBTIYCWLQPZXVGJD'')]"

definition REFLECTORS :: "(string \<times> jsstring) list" where
  "REFLECTORS =
     [(''B'', js ''AY BR CU DH EQ FS GL IP JX KN MO TZ VW''),
      (''C'', js ''AF BV CP DJ EI GO HY KR LZ MX NW TQ SU''),
      (''B Thin'', js ''AE BN CK DQ FU GY HW IJ LO MP RX SZ TV''),
      (''C Thin'', js ''AR BD CO EJ FN GT HK IV LM PW QZ SX UY'')]"

text \<open>\<open>parseRotorStr\<close>: the code of \<open><\<close> is 60; \<open>split("<", 2)\<close> keeps the first two
  pieces. Its error is one more \<open>OperationError\<close>, here with the rotor's number.\<close>

datatype run_error = RotorNotProvided nat | Core error

definition parseRotorStr :: "jsstring \<Rightarrow> nat \<Rightarrow> run_error + (jsstring \<times> jsstring)" where
  "parseRotorStr rotor i =
     (if rotor = [] then Inl (RotorNotProvided i)
      else if 60 \<notin> set rotor then Inr (rotor, [])
      else Inr (takeWhile (\<lambda>c. c \<noteq> 60) rotor,
                takeWhile (\<lambda>c. c \<noteq> 60) (tl (dropWhile (\<lambda>c. c \<noteq> 60) rotor))))"

definition core :: "error + 'a \<Rightarrow> run_error + 'a" where
  "core x = (case x of Inl e \<Rightarrow> Inl (Core e) | Inr v \<Rightarrow> Inr v)"

definition parse_new_Rotor :: "jsstring \<Rightarrow> nat \<Rightarrow> jsstring \<Rightarrow> jsstring \<Rightarrow> run_error + Rotor" where
  "parse_new_Rotor rotorstr i ring position =
     (case parseRotorStr rotorstr i of
        Inl e \<Rightarrow> Inl e
      | Inr (wiring, stepsStr) \<Rightarrow> core (new_Rotor wiring stepsStr ring position))"

text \<open>\<open>result.replace(/([A-Z]{5})(?!$)/g, "$1 ")\<close>: scanning from the left, five capital
  letters that do not end the string are followed by a space (code 32).\<close>

function group5 :: "jsstring \<Rightarrow> jsstring" where
  "group5 s =
     (if 5 < length s \<and> list_all is_AZ (take 5 s) then take 5 s @ [32] @ group5 (drop 5 s)
      else (case s of [] \<Rightarrow> [] | c # cs \<Rightarrow> c # group5 cs))"
  by pat_completeness auto
termination
  by (relation "measure length") auto

record run_args =
  rotor1str :: jsstring
  rotor1ring :: jsstring
  rotor1pos :: jsstring
  rotor2str :: jsstring
  rotor2ring :: jsstring
  rotor2pos :: jsstring
  rotor3str :: jsstring
  rotor3ring :: jsstring
  rotor3pos :: jsstring
  rotor4str :: jsstring
  rotor4pos :: jsstring
  reflectorstr :: jsstring
  plugboardstr :: jsstring
  removeOther :: bool

definition is_letter :: "jschar \<Rightarrow> bool" where
  "is_letter c \<longleftrightarrow> is_AZ c \<or> (97 \<le> c \<and> c \<le> 122)"

definition run_rotors :: "run_args \<Rightarrow> run_error + Rotor list" where
  "run_rotors args =
     (case parse_new_Rotor (rotor1str args) 1 (rotor1ring args) (rotor1pos args) of
        Inl e \<Rightarrow> Inl e
      | Inr r1 \<Rightarrow>
     (case parse_new_Rotor (rotor2str args) 2 (rotor2ring args) (rotor2pos args) of
        Inl e \<Rightarrow> Inl e
      | Inr r2 \<Rightarrow>
     (case parse_new_Rotor (rotor3str args) 3 (rotor3ring args) (rotor3pos args) of
        Inl e \<Rightarrow> Inl e
      | Inr r3 \<Rightarrow>
          if rotor4str args \<noteq> [] then
            (case parse_new_Rotor (rotor4str args) 4 (js ''A'') (rotor4pos args) of
               Inl e \<Rightarrow> Inl e
             | Inr r4 \<Rightarrow> Inr [r1, r2, r3, r4])
          else Inr [r1, r2, r3])))"

definition run :: "jsstring \<Rightarrow> run_args \<Rightarrow> run_error + jsstring" where
  "run input0 args =
     (case run_rotors args of
        Inl e \<Rightarrow> Inl e
      | Inr rs \<Rightarrow>
     (case core (new_Reflector (reflectorstr args)) of
        Inl e \<Rightarrow> Inl e
      | Inr rf \<Rightarrow>
     (case core (new_Plugboard (plugboardstr args)) of
        Inl e \<Rightarrow> Inl e
      | Inr pb \<Rightarrow>
          let input = (if removeOther args then filter is_letter input0 else input0) in
          (case core (new_EnigmaMachine rs rf pb) of
             Inl e \<Rightarrow> Inl e
           | Inr enigma \<Rightarrow>
               (case core (crypt enigma input) of
                  Inl e \<Rightarrow> Inl e
                | Inr (enigma', result) \<Rightarrow>
                    Inr (if removeOther args then group5 result else result))))))"

section \<open>Configurations, and the notions the properties are stated with\<close>

text \<open>A machine is put together as \<open>run\<close> does it, for any number of rotors: the rotors in
  order, each from its wiring, steps, ring setting and initial position, then the reflector, the
  plugboard and the machine. Construction is a function of the configuration, so two machines
  freshly constructed from one configuration are the same value.\<close>

type_synonym rotor_spec = "jsstring \<times> jsstring \<times> jsstring \<times> jsstring"

fun new_Rotors :: "rotor_spec list \<Rightarrow> error + Rotor list" where
  "new_Rotors [] = Inr []"
| "new_Rotors ((wiring, stepsStr, ringSetting, initialPosition) # specs) =
     (case new_Rotor wiring stepsStr ringSetting initialPosition of
        Inl e \<Rightarrow> Inl e
      | Inr r \<Rightarrow> (case new_Rotors specs of Inl e \<Rightarrow> Inl e | Inr rs \<Rightarrow> Inr (r # rs)))"

definition assemble :: "rotor_spec list \<Rightarrow> jsstring \<Rightarrow> jsstring \<Rightarrow> error + EnigmaBase" where
  "assemble specs reflectorPairs plugboardPairs =
     (case new_Rotors specs of
        Inl e \<Rightarrow> Inl e
      | Inr rs \<Rightarrow>
          (case new_Reflector reflectorPairs of
             Inl e \<Rightarrow> Inl e
           | Inr rf \<Rightarrow>
               (case new_Plugboard plugboardPairs of
                  Inl e \<Rightarrow> Inl e
                | Inr pb \<Rightarrow> new_EnigmaMachine rs rf pb)))"

text \<open>The capital letter of a letter; any other character is left as it is.\<close>

definition toUpper :: "jschar \<Rightarrow> jschar" where
  "toUpper c = (if 97 \<le> c \<and> c \<le> 122 then c - 32 else c)"

text \<open>\<open>n\<close> calls of \<open>step\<close> in a row.\<close>

fun nsteps :: "nat \<Rightarrow> EnigmaBase \<Rightarrow> error + EnigmaBase" where
  "nsteps 0 m = Inr m"
| "nsteps (Suc n) m = (case step m of Inl e \<Rightarrow> Inl e | Inr m' \<Rightarrow> nsteps n m')"

text \<open>The invariants of the components. A rotor is wired when \<open>map\<close> and \<open>revMap\<close> are
  inverse permutations of \<open>0..25\<close>; a pair map is paired when it is symmetric, without fixed
  points, on letters only and has no key twice; it is complete when every letter is a key.\<close>

definition letter :: "int \<Rightarrow> bool" where
  "letter c \<longleftrightarrow> 0 \<le> c \<and> c < 26"

definition wired :: "Rotor \<Rightarrow> bool" where
  "wired r \<longleftrightarrow>
     (\<forall>k. letter k \<longrightarrow> (\<exists>v. letter v \<and> map_of (map_r r) k = Some v \<and> map_of (revMap r) v = Some k))
     \<and> (\<forall>v. letter v \<longrightarrow> (\<exists>k. letter k \<and> map_of (revMap r) v = Some k \<and> map_of (map_r r) k = Some v))"

definition paired :: "PairMapBase \<Rightarrow> bool" where
  "paired m \<longleftrightarrow>
     distinct (map fst m)
     \<and> (\<forall>a b. map_of m a = Some b \<longrightarrow> map_of m b = Some a \<and> a \<noteq> b \<and> letter a)"

definition complete :: "PairMapBase \<Rightarrow> bool" where
  "complete m \<longleftrightarrow> (\<forall>c. letter c \<longrightarrow> map_of m c \<noteq> None)"

definition machine_ok :: "EnigmaBase \<Rightarrow> bool" where
  "machine_ok m \<longleftrightarrow>
     3 \<le> length (rotors m) \<and> (\<forall>r \<in> set (rotors m). wired r)
     \<and> paired (reflector m) \<and> complete (reflector m) \<and> paired (plugboard m)"

text \<open>The rotor stack in the two directions of the signal path.\<close>

definition forward :: "Rotor list \<Rightarrow> int option \<Rightarrow> int option" where
  "forward rs x = fold (\<lambda>rotor letter. Option.bind letter (Rotor_transform rotor)) rs x"

definition backward :: "Rotor list \<Rightarrow> int option \<Rightarrow> int option" where
  "backward rs x = fold (\<lambda>rotor letter. Option.bind letter (Rotor_revTransform rotor)) (rev rs) x"

text \<open>A configuration to run the properties on: rotors III, II and I from right to left,
  with ring settings and initial positions that are not all \<open>A\<close>, reflector B and two
  plugboard cables.\<close>

definition example_specs :: "rotor_spec list" where
  "example_specs =
     [(js ''BDFHJLCPRTXVZNYEIWGAKMUSQO'', js ''W'', js ''A'', js ''V''),
      (js ''AJDKSIRUXBLHWTMCQGZNPYFVOE'', js ''F'', js ''B'', js ''E''),
      (js ''EKMFLGDQVZNTOWYHXUSPAIBRCJ'', js ''R'', js ''A'', js ''A'')]"

definition example_reflector :: jsstring where
  "example_reflector = js ''AY BR CU DH EQ FS GL IP JX KN MO TZ VW''"

definition example_plugboard :: jsstring where
  "example_plugboard = js ''AB CD''"

text \<open>The arguments of \<open>run\<close> for the test vector: three rotors given by their catalogue
  strings, first (right-hand) rotor first, every ring setting and initial position \<open>A\<close>, no
  fourth rotor, reflector B, no plugboard cable.\<close>

definition vector_args :: "jsstring \<Rightarrow> jsstring \<Rightarrow> jsstring \<Rightarrow> bool \<Rightarrow> run_args" where
  "vector_args first second third strip =
     \<lparr>rotor1str = first, rotor1ring = js ''A'', rotor1pos = js ''A'',
      rotor2str = second, rotor2ring = js ''A'', rotor2pos = js ''A'',
      rotor3str = third, rotor3ring = js ''A'', rotor3pos = js ''A'',
      rotor4str = js '''', rotor4pos = js ''A'',
      reflectorstr = snd (REFLECTORS ! 0), plugboardstr = js '''',
      removeOther = strip\<rparr>"

text \<open>The same machines put together from the constructors, and the text that \<open>crypt\<close>
  returns for an input.\<close>

definition rotor_I :: rotor_spec where
  "rotor_I = (js ''EKMFLGDQVZNTOWYHXUSPAIBRCJ'', js ''R'', js ''A'', js ''A'')"

definition rotor_II :: rotor_spec where
  "rotor_II = (js ''AJDKSIRUXBLHWTMCQGZNPYFVOE'', js ''F'', js ''A'', js ''A'')"

definition rotor_III :: rotor_spec where
  "rotor_III = (js ''BDFHJLCPRTXVZNYEIWGAKMUSQO'', js ''W'', js ''A'', js ''A'')"

definition crypt_text :: "rotor_spec list \<Rightarrow> jsstring \<Rightarrow> jsstring \<Rightarrow> jsstring \<Rightarrow> error + jsstring" where
  "crypt_text specs reflectorPairs plugboardPairs input =
     (case assemble specs reflectorPairs plugboardPairs of
        Inl e \<Rightarrow> Inl e
      | Inr m \<Rightarrow> (case crypt m input of Inl e \<Rightarrow> Inl e | Inr (m', result) \<Rightarrow> Inr result))"

text \<open>Invalid configurations: a wiring with \<open>A\<close> twice, a plugboard with \<open>B\<close> in two
  pairs, a reflector of twelve pairs that leaves out \<open>V\<close> and \<open>W\<close>, and arguments of
  \<open>run\<close> with that reflector.\<close>

definition repeated_wiring :: jsstring where
  "repeated_wiring = js ''AACDEFGHIJKLMNOPQRSTUVWXYZ''"

definition shared_plugboard :: jsstring where
  "shared_plugboard = js ''AB BC''"

definition short_reflector :: jsstring where
  "short_reflector = js ''AY BR CU DH EQ FS GL IP JX KN MO TZ''"

definition short_reflector_args :: run_args where
  "short_reflector_args =
     (vector_args (snd (ROTORS ! 2)) (snd (ROTORS ! 1)) (snd (ROTORS ! 0)) False)
       \<lparr>reflectorstr := short_reflector\<rparr>"

text \<open>Everything the classes throw themselves is an \<open>OperationError\<close>; only
  \<open>TypeError\<close> comes from the language.\<close>

definition OperationError :: "error \<Rightarrow> bool" where
  "OperationError e \<longleftrightarrow> e \<noteq> TypeError"

section \<open>Evaluation on concrete inputs\<close>

declare split_ws.simps [simp del] group5.simps [simp del]

lemma split_ws_Nil: "split_ws [] = [[]]"
  by (simp add: split_ws.simps)

lemma split_ws_Cons:
  "split_ws (c # s) =
     (if is_ws c then [] # split_ws (dropWhile is_ws s)
      else (case split_ws s of t # ts \<Rightarrow> (c # t) # ts | [] \<Rightarrow> [[c]]))"
  by (subst split_ws.simps, subst (3) split_ws.simps) (simp add: Let_def)

section \<open>The rotor constructor establishes inverse permutations\<close>

lemma LETTERS_upt: "LETTERS = [65..<91]"
  by (simp add: LETTERS_def js_def upt_rec)

lemma length_LETTERS: "length LETTERS = 26"
  by (simp add: LETTERS_def js_def)

lemma LETTERS_nth:
  assumes "i < 26"
  shows "LETTERS ! i = 65 + i"
proof -
  from assms have "65 + i < 91" by simp
  from nth_upt [OF this] show ?thesis by (simp only: LETTERS_upt)
qed

lemma a2i_strict_Inr: "a2i c False = Inr a \<longleftrightarrow> is_AZ c \<and> a = int c - 65"
  by (auto simp: a2i_def Utils_ord_def is_AZ_def Let_def split: if_splits)

lemma a2i_strict_Inl: "a2i c False = Inl e \<longleftrightarrow> \<not> is_AZ c \<and> e = A2iNotUppercase"
  by (auto simp: a2i_def Utils_ord_def is_AZ_def Let_def split: if_splits)

lemma a2i_LETTERS: "i < 26 \<Longrightarrow> a2i (LETTERS ! i) False = Inr (int i)"
  by (simp add: LETTERS_nth a2i_strict_Inr is_AZ_def)

lemmas ev =
  new_Rotor_def match_AZ_def is_AZ_def length_LETTERS LETTERS_nth upt_rec js_def a2i_def Utils_ord_def
  Utils_mod_def Utils_chr_def i2a_def new_PairMapBase_def new_Reflector_def new_Plugboard_def
  split_ws_Nil split_ws_Cons is_ws_def new_EnigmaMachine_def new_EnigmaBase_def step_def
  Rotor_step_def signal_def rotorsRev_def Rotor_transform_def Rotor_revTransform_def
  PairMapBase_transform_def PairMapBase_revTransform_def crypt_def assemble_def Let_def

lemma is_AZ_letter: "is_AZ c \<Longrightarrow> letter (int c - 65)"
  by (auto simp: is_AZ_def letter_def)

lemma wire_Cons:
  assumes "wire w (i # is) (m, rm) = Inr (m', rm')" and "i < 26"
  shows "is_AZ (w ! i) \<and>
    wire w is (AList.update (int i) (int (w ! i) - 65) m, AList.update (int (w ! i) - 65) (int i) rm)
      = Inr (m', rm')"
proof (cases "a2i (w ! i) False")
  case (Inl e)
  with assms show ?thesis by (simp add: a2i_LETTERS)
next
  case (Inr b)
  then have "is_AZ (w ! i)" "b = int (w ! i) - 65" by (simp_all add: a2i_strict_Inr)
  with assms Inr show ?thesis by (simp add: a2i_LETTERS)
qed

lemma wire_spec:
  assumes "wire w is (m, rm) = Inr (m', rm')" and "distinct is" and "\<forall>i\<in>set is. i < 26"
  shows "(\<forall>i\<in>set is. is_AZ (w ! i) \<and> map_of m' (int i) = Some (int (w ! i) - 65))
       \<and> (\<forall>k. k \<notin> int ` set is \<longrightarrow> map_of m' k = map_of m k)
       \<and> fst ` set rm' = fst ` set rm \<union> (\<lambda>i. int (w ! i) - 65) ` set is
       \<and> (distinct (map fst rm) \<longrightarrow> distinct (map fst rm'))
       \<and> (\<forall>v k. map_of rm' v = Some k \<longrightarrow>
              map_of rm v = Some k \<or> (\<exists>i\<in>set is. k = int i \<and> v = int (w ! i) - 65))"
  using assms
proof (induction "is" arbitrary: m rm)
  case Nil
  then show ?case by simp
next
  case (Cons i "is")
  have i26: "i < 26" using Cons.prems(3) by simp
  let ?b = "int (w ! i) - 65"
  from wire_Cons [OF Cons.prems(1) i26]
  have az: "is_AZ (w ! i)"
    and rec: "wire w is (AList.update (int i) ?b m, AList.update ?b (int i) rm) = Inr (m', rm')"
    by simp_all
  have d: "distinct is" "\<forall>j\<in>set is. j < 26" "i \<notin> set is"
    using Cons.prems by auto
  have ni: "int i \<notin> int ` set is" using d(3) by auto
  note IH = Cons.IH [OF rec d(1,2)]
  from IH have IH1: "\<forall>j\<in>set is. is_AZ (w ! j) \<and> map_of m' (int j) = Some (int (w ! j) - 65)"
    and IH2: "\<forall>k. k \<notin> int ` set is \<longrightarrow> map_of m' k = map_of (AList.update (int i) ?b m) k"
    and IH3: "fst ` set rm' = fst ` set (AList.update ?b (int i) rm) \<union> (\<lambda>i. int (w ! i) - 65) ` set is"
    and IH4: "distinct (map fst (AList.update ?b (int i) rm)) \<longrightarrow> distinct (map fst rm')"
    and IH5: "\<forall>v k. map_of rm' v = Some k \<longrightarrow>
              map_of (AList.update ?b (int i) rm) v = Some k \<or> (\<exists>i\<in>set is. k = int i \<and> v = int (w ! i) - 65)"
    by blast+
  show ?case
  proof (intro conjI)
    have "map_of m' (int i) = Some ?b"
      using IH2 ni by (simp add: update_conv')
    then show "\<forall>j\<in>set (i # is). is_AZ (w ! j) \<and> map_of m' (int j) = Some (int (w ! j) - 65)"
      using IH1 az by simp
    show "\<forall>k. k \<notin> int ` set (i # is) \<longrightarrow> map_of m' k = map_of m k"
      using IH2 by (simp add: update_conv')
    show "fst ` set rm' = fst ` set rm \<union> (\<lambda>i. int (w ! i) - 65) ` set (i # is)"
      using IH3 by (simp add: dom_update)
    show "distinct (map fst rm) \<longrightarrow> distinct (map fst rm')"
      using IH4 by (simp add: distinct_update)
    show "\<forall>v k. map_of rm' v = Some k \<longrightarrow>
              map_of rm v = Some k \<or> (\<exists>j\<in>set (i # is). k = int j \<and> v = int (w ! j) - 65)"
    proof (intro allI impI)
      fix v k assume "map_of rm' v = Some k"
      with IH5 have "map_of (AList.update ?b (int i) rm) v = Some k
          \<or> (\<exists>j\<in>set is. k = int j \<and> v = int (w ! j) - 65)" by blast
      then show "map_of rm v = Some k \<or> (\<exists>j\<in>set (i # is). k = int j \<and> v = int (w ! j) - 65)"
        by (auto simp: update_conv' split: if_splits)
    qed
  qed
qed

lemma new_Rotor_Inr:
  assumes "new_Rotor w s g p = Inr r"
  shows "\<exists>m rm. match_AZ 26 26 w \<and> wire w [0..<26] ([], []) = Inr (m, rm) \<and> length rm = 26
           \<and> map_r r = m \<and> revMap r = rm"
proof -
  from assms have f: "match_AZ 26 26 w" "match_AZ 0 26 s" "match_AZ 1 1 g" "match_AZ 1 1 p"
    by (simp_all add: new_Rotor_def split: if_splits)
  show ?thesis
  proof (cases "wire w [0..<26] ([], [])")
    case (Inl e)
    with assms f show ?thesis by (simp add: new_Rotor_def length_LETTERS)
  next
    case (Inr mr)
    obtain m rm where mr: "mr = (m, rm)" by (cases mr)
    have l: "length rm = 26"
      using assms f Inr mr by (simp add: new_Rotor_def length_LETTERS split: if_splits)
    have "map_r r = m \<and> revMap r = rm"
      using assms f Inr mr l
      by (auto simp add: new_Rotor_def length_LETTERS split: if_splits sum.splits)
    with f Inr mr l show ?thesis by simp
  qed
qed

lemma new_Rotor_facts:
  assumes "new_Rotor w s g p = Inr r"
  shows "inj_on (\<lambda>i. int (w ! i) - 65) {0..<26}"
    and "(\<lambda>i. int (w ! i) - 65) ` {0..<26} = {0..<26}"
    and "\<forall>i<26. map_of (map_r r) (int i) = Some (int (w ! i) - 65)"
    and "\<forall>v k. map_of (revMap r) v = Some k \<longrightarrow> (\<exists>i<26. k = int i \<and> v = int (w ! i) - 65)"
    and "fst ` set (revMap r) = {0..<26}"
    and "length w = 26"
proof -
  let ?b = "\<lambda>i. int (w ! i) - 65"
  from new_Rotor_Inr [OF assms] obtain m rm where
    f: "match_AZ 26 26 w" and wr: "wire w [0..<26] ([], []) = Inr (m, rm)"
    and l: "length rm = 26" and mr: "map_r r = m" "revMap r = rm"
    by blast
  from f show len: "length w = 26" by (simp add: match_AZ_def)
  have "distinct [0..<26::nat]" "\<forall>i\<in>set [0..<26::nat]. i < 26" by simp_all
  note ws = wire_spec [OF wr this]
  note w1 = ws [THEN conjunct1]
    and w3 = ws [THEN conjunct2, THEN conjunct2, THEN conjunct1]
    and w4 = ws [THEN conjunct2, THEN conjunct2, THEN conjunct2, THEN conjunct1]
    and w5 = ws [THEN conjunct2, THEN conjunct2, THEN conjunct2, THEN conjunct2]
  have keys: "fst ` set rm = ?b ` {0..<26}" using w3 by simp
  have "card (fst ` set rm) = 26"
    using w4 l distinct_card [of "map fst rm"] by simp
  then have c: "card (?b ` {0..<26}) = card {0..<26::nat}" using keys by simp
  show inj: "inj_on ?b {0..<26}"
    by (rule eq_card_imp_inj_on [OF _ c]) simp
  have sub: "?b ` {0..<26} \<subseteq> {0..<26}"
  proof
    fix v assume "v \<in> ?b ` {0..<26}"
    then obtain i where "i < 26" "v = ?b i" by auto
    with w1 have "is_AZ (w ! i)" by simp
    from is_AZ_letter [OF this] show "v \<in> {0..<26}" using \<open>v = ?b i\<close> by (simp add: letter_def)
  qed
  show surj: "?b ` {0..<26} = {0..<26}"
    by (rule card_subset_eq [OF _ sub]) (simp_all add: c)
  show "\<forall>i<26. map_of (map_r r) (int i) = Some (?b i)" using w1 mr by simp
  show "\<forall>v k. map_of (revMap r) v = Some k \<longrightarrow> (\<exists>i<26. k = int i \<and> v = ?b i)"
  proof (intro allI impI)
    fix v k assume "map_of (revMap r) v = Some k"
    then have "map_of rm v = Some k" using mr by simp
    from w5 [rule_format, OF this] obtain i where "i < 26" "k = int i" "v = ?b i" by auto
    then show "\<exists>i<26. k = int i \<and> v = ?b i" by blast
  qed
  show "fst ` set (revMap r) = {0..<26}" using keys surj mr by simp
qed

lemma letter_nat: "letter k \<Longrightarrow> nat k < 26 \<and> int (nat k) = k"
  unfolding letter_def by arith

lemma new_Rotor_wired:
  assumes "new_Rotor w s g p = Inr r"
  shows "wired r"
proof -
  let ?b = "\<lambda>i. int (w ! i) - 65"
  note f = new_Rotor_facts [OF assms]
  have rng: "\<And>i. i < 26 \<Longrightarrow> letter (?b i)"
  proof -
    fix i :: nat assume "i < 26"
    then have "?b i \<in> ?b ` {0..<26}" by simp
    then show "letter (?b i)" unfolding f(2) by (simp add: letter_def)
  qed
  have inv: "\<And>i. i < 26 \<Longrightarrow> map_of (revMap r) (?b i) = Some (int i)"
  proof -
    fix i :: nat assume i: "i < 26"
    then have "?b i \<in> fst ` set (revMap r)" using rng [OF i] unfolding f(5) by (simp add: letter_def)
    then obtain k where k: "map_of (revMap r) (?b i) = Some k"
      by (metis domD dom_map_of_conv_image_fst)
    with f(4) obtain j where j: "j < 26" "k = int j" "?b i = ?b j" by blast
    from f(1) i j(1,3) have "i = j" by (simp add: inj_on_def)
    with k j show "map_of (revMap r) (?b i) = Some (int i)" by simp
  qed
  show ?thesis
    unfolding wired_def
  proof (intro conjI allI impI)
    fix k assume "letter k"
    then have k: "nat k < 26" "int (nat k) = k" using letter_nat by auto
    from f(3) k have "map_of (map_r r) k = Some (?b (nat k))" by metis
    moreover from inv [OF k(1)] k(2) have "map_of (revMap r) (?b (nat k)) = Some k" by simp
    ultimately show "\<exists>v. letter v \<and> map_of (map_r r) k = Some v \<and> map_of (revMap r) v = Some k"
      using rng [OF k(1)] by blast
  next
    fix v assume "letter v"
    then have "v \<in> ?b ` {0..<26}" unfolding f(2) by (simp add: letter_def)
    then obtain i where i: "i < 26" "v = ?b i" by auto
    have "letter (int i)" using i(1) by (simp add: letter_def)
    moreover have "map_of (revMap r) v = Some (int i)" using inv [OF i(1)] i(2) by simp
    moreover have "map_of (map_r r) (int i) = Some v" using f(3) i by simp
    ultimately show "\<exists>k. letter k \<and> map_of (revMap r) v = Some k \<and> map_of (map_r r) k = Some v"
      by blast
  qed
qed

lemma new_Rotor_distinct:
  assumes "new_Rotor w s g p = Inr r"
  shows "distinct w"
proof -
  note f = new_Rotor_facts [OF assms]
  show ?thesis
    unfolding distinct_conv_nth
  proof (intro allI impI)
    fix i j assume "i < length w" "j < length w" "i \<noteq> j"
    then have "i \<in> {0..<26}" "j \<in> {0..<26}" using f(6) by simp_all
    with f(1) \<open>i \<noteq> j\<close> have "int (w ! i) - 65 \<noteq> int (w ! j) - 65"
      unfolding inj_on_def by blast
    then show "w ! i \<noteq> w ! j" by auto
  qed
qed

section \<open>The pair maps are matchings\<close>

lemma match_AZ_2: "match_AZ 2 2 t \<longleftrightarrow> (\<exists>x y. t = [x, y] \<and> is_AZ x \<and> is_AZ y)"
proof
  assume "match_AZ 2 2 t"
  then have l: "length t = 2" and a: "list_all is_AZ t" by (simp_all add: match_AZ_def)
  from l obtain x y where "t = [x, y]"
    by (cases t; cases "tl t") auto
  with a show "\<exists>x y. t = [x, y] \<and> is_AZ x \<and> is_AZ y" by simp
next
  assume "\<exists>x y. t = [x, y] \<and> is_AZ x \<and> is_AZ y"
  then show "match_AZ 2 2 t" by (auto simp: match_AZ_def)
qed

lemma add_pairs_Cons:
  assumes "add_pairs name (t # ts) m = Inr m'"
  shows "\<exists>x y. t = [x, y] \<and> is_AZ x \<and> is_AZ y \<and> x \<noteq> y
           \<and> map_of m (int x - 65) = None \<and> map_of m (int y - 65) = None
           \<and> add_pairs name ts
                (AList.update (int y - 65) (int x - 65) (AList.update (int x - 65) (int y - 65) m)) = Inr m'"
proof -
  from assms have "match_AZ 2 2 t" by (simp split: if_splits)
  then obtain x y where t: "t = [x, y]" "is_AZ x" "is_AZ y" unfolding match_AZ_2 by blast
  then have a: "a2i x False = Inr (int x - 65)" "a2i y False = Inr (int y - 65)"
    by (simp_all add: a2i_strict_Inr)
  have m: "match_AZ 2 2 [x, y]" using t unfolding match_AZ_2 by blast
  from assms show ?thesis
    unfolding t(1) using t(2,3)
    by (simp add: a m split: if_splits)
qed

lemma paired_update:
  assumes "paired m" and "a \<noteq> b" and "letter a" and "letter b"
    and "map_of m a = None" and "map_of m b = None"
  shows "paired (AList.update b a (AList.update a b m))"
proof -
  have "distinct (map fst (AList.update b a (AList.update a b m)))"
    using assms(1) by (simp add: paired_def distinct_update)
  moreover have "map_of (AList.update b a (AList.update a b m)) q = Some p \<and> p \<noteq> q \<and> letter p"
    if pq: "map_of (AList.update b a (AList.update a b m)) p = Some q" for p q
  proof -
  have old: "\<And>p q. map_of m p = Some q \<Longrightarrow> map_of m q = Some p \<and> p \<noteq> q \<and> letter p"
    using assms(1) unfolding paired_def by blast
  show ?thesis
  proof (cases "p = a \<or> p = b")
    case True
    with pq assms show ?thesis by (auto simp: update_conv')
  next
    case False
    with pq have mp: "map_of m p = Some q" by (simp add: update_conv')
    from old [OF this] have qp: "map_of m q = Some p" "p \<noteq> q" "letter p" by simp_all
    from qp(1) assms(5,6) have "q \<noteq> a" "q \<noteq> b" by auto
    with qp show ?thesis by (simp add: update_conv')
  qed
  qed
  ultimately show ?thesis unfolding paired_def by blast
qed

lemma code_inj: "int x - 65 = int y - 65 \<longleftrightarrow> x = y"
  by auto

lemma add_pairs_spec:
  assumes "add_pairs name ts m = Inr m'" and "paired m"
  shows "paired m'
       \<and> fst ` set m' = fst ` set m \<union> (\<lambda>c. int c - 65) ` set (concat ts)
       \<and> (\<forall>t\<in>set ts. match_AZ 2 2 t)
       \<and> distinct (concat ts)
       \<and> (\<forall>c\<in>set (concat ts). int c - 65 \<notin> fst ` set m)"
  using assms
proof (induction ts arbitrary: m)
  case Nil
  then show ?case by simp
next
  case (Cons t ts)
  from add_pairs_Cons [OF Cons.prems(1)] obtain x y where
    t: "t = [x, y]" and az: "is_AZ x" "is_AZ y" and ne: "x \<noteq> y"
    and fresh: "map_of m (int x - 65) = None" "map_of m (int y - 65) = None"
    and rec: "add_pairs name ts
        (AList.update (int y - 65) (int x - 65) (AList.update (int x - 65) (int y - 65) m)) = Inr m'"
    by blast
  let ?a = "int x - 65" and ?b = "int y - 65"
  let ?m2 = "AList.update ?b ?a (AList.update ?a ?b m)"
  have ab: "?a \<noteq> ?b" using ne by simp
  have p2: "paired ?m2"
    by (rule paired_update [OF Cons.prems(2) ab is_AZ_letter [OF az(1)] is_AZ_letter [OF az(2)] fresh])
  note IH = Cons.IH [OF rec p2]
  have k2: "fst ` set ?m2 = fst ` set m \<union> {?a, ?b}" by (auto simp: dom_update)
  have nk: "?a \<notin> fst ` set m" "?b \<notin> fst ` set m"
    using fresh by (simp_all add: map_of_eq_None_iff)
  show ?case
  proof (intro conjI)
    show "paired m'" using IH by blast
    show "fst ` set m' = fst ` set m \<union> (\<lambda>c. int c - 65) ` set (concat (t # ts))"
      using IH [THEN conjunct2, THEN conjunct1] k2 t by auto
    show "\<forall>t\<in>set (t # ts). match_AZ 2 2 t"
      using IH [THEN conjunct2, THEN conjunct2, THEN conjunct1] t az match_AZ_2 by auto
    have fr: "\<forall>c\<in>set (concat ts). int c - 65 \<notin> fst ` set ?m2"
      using IH by blast
    have "\<forall>c\<in>set (concat ts). c \<noteq> x \<and> c \<noteq> y"
    proof
      fix c assume "c \<in> set (concat ts)"
      with fr have "int c - 65 \<notin> fst ` set m \<union> {?a, ?b}" unfolding k2 by blast
      then show "c \<noteq> x \<and> c \<noteq> y" by auto
    qed
    moreover have "distinct (concat ts)" using IH by blast
    ultimately show "distinct (concat (t # ts))" using t ne by auto
    show "\<forall>c\<in>set (concat (t # ts)). int c - 65 \<notin> fst ` set m"
    proof
      fix c assume "c \<in> set (concat (t # ts))"
      then consider "c = x" | "c = y" | "c \<in> set (concat ts)" using t by auto
      then show "int c - 65 \<notin> fst ` set m"
      proof cases
        case 3
        with fr have "int c - 65 \<notin> fst ` set m \<union> {?a, ?b}" unfolding k2 by blast
        then show ?thesis by blast
      qed (use nk in simp_all)
    qed
  qed
qed

lemma paired_Nil: "paired []"
  by (simp add: paired_def)

lemma new_PairMapBase_paired:
  assumes "new_PairMapBase s name = Inr m"
  shows "paired m"
proof (cases "s = []")
  case True
  with assms show ?thesis by (simp add: new_PairMapBase_def paired_Nil)
next
  case False
  with assms have "add_pairs name (split_ws s) [] = Inr m" by (simp add: new_PairMapBase_def)
  from add_pairs_spec [OF this paired_Nil] show ?thesis by blast
qed

lemma new_PairMapBase_keys:
  assumes "new_PairMapBase s name = Inr m"
  shows "fst ` set m \<subseteq> (\<lambda>c. int c - 65) ` set (concat (split_ws s))"
proof (cases "s = []")
  case True
  with assms show ?thesis by (simp add: new_PairMapBase_def)
next
  case False
  with assms have "add_pairs name (split_ws s) [] = Inr m" by (simp add: new_PairMapBase_def)
  from add_pairs_spec [OF this paired_Nil] show ?thesis by simp
qed

lemma paired_keys_letters: "paired m \<Longrightarrow> fst ` set m \<subseteq> {0..<26}"
proof
  fix a assume p: "paired m" and "a \<in> fst ` set m"
  then obtain b where "map_of m a = Some b" by (metis domD dom_map_of_conv_image_fst)
  with p have "letter a" unfolding paired_def by blast
  then show "a \<in> {0..<26}" by (simp add: letter_def)
qed

lemma paired_full:
  assumes "paired m" and "length m = 26"
  shows "fst ` set m = {0..<26}" and "complete m"
proof -
  have "card (fst ` set m) = 26"
    using assms distinct_card [of "map fst m"] by (simp add: paired_def)
  then show k: "fst ` set m = {0..<26}"
    by (intro card_subset_eq paired_keys_letters [OF assms(1)]) simp_all
  show "complete m"
    unfolding complete_def
  proof (intro allI impI)
    fix c assume "letter c"
    then have "c \<in> fst ` set m" unfolding k by (simp add: letter_def)
    then show "map_of m c \<noteq> None" by (simp add: map_of_eq_None_iff)
  qed
qed

lemma new_Reflector_Inr:
  assumes "new_Reflector s = Inr m"
  shows "new_PairMapBase s ''Reflector'' = Inr m \<and> length m = 26"
  using assms by (auto simp: new_Reflector_def split: sum.splits if_splits)

lemma new_Reflector_ok:
  assumes "new_Reflector s = Inr m"
  shows "paired m" and "complete m"
proof -
  from new_Reflector_Inr [OF assms] have b: "new_PairMapBase s ''Reflector'' = Inr m" and l: "length m = 26"
    by simp_all
  show "paired m" by (rule new_PairMapBase_paired [OF b])
  then show "complete m" using l by (rule paired_full)
qed

lemma new_Plugboard_ok: "new_Plugboard s = Inr m \<Longrightarrow> paired m"
  unfolding new_Plugboard_def by (rule new_PairMapBase_paired)

lemma transform_involution:
  assumes "paired m"
  shows "PairMapBase_transform m (PairMapBase_transform m c) = c"
proof (cases "map_of m c")
  case None
  then show ?thesis by (simp add: PairMapBase_transform_def)
next
  case (Some v)
  with assms have "map_of m v = Some c" unfolding paired_def by blast
  with Some show ?thesis by (simp add: PairMapBase_transform_def)
qed

lemma transform_letter:
  assumes "paired m" and "letter c"
  shows "letter (PairMapBase_transform m c)"
proof (cases "map_of m c")
  case None
  with assms show ?thesis by (simp add: PairMapBase_transform_def)
next
  case (Some v)
  with assms have "map_of m v = Some c" unfolding paired_def by blast
  with assms have "letter v" unfolding paired_def by blast
  with Some show ?thesis by (simp add: PairMapBase_transform_def)
qed

lemma transform_no_fixpoint:
  assumes "paired m" and "complete m" and "letter c"
  shows "PairMapBase_transform m c \<noteq> c"
proof -
  from assms(2,3) obtain v where v: "map_of m c = Some v" unfolding complete_def by blast
  with assms(1) have "c \<noteq> v" unfolding paired_def by blast
  with v show ?thesis by (simp add: PairMapBase_transform_def)
qed

section \<open>The signal path is a fixed-point-free involution\<close>

lemma wired_pos [simp]: "wired (r\<lparr>pos := p\<rparr>) = wired r"
  by (simp add: wired_def)

lemma wired_step [simp]: "wired (Rotor_step r) = wired r"
  by (simp add: Rotor_step_def)

lemma letter_mod [simp]: "letter (x mod 26)"
  by (simp add: letter_def)

lemma letter_mod_id: "letter x \<Longrightarrow> x mod 26 = x"
  by (simp add: letter_def)

lemma Rotor_transform_wired:
  assumes "wired r" and "letter c"
  shows "\<exists>y. letter y \<and> Rotor_transform r c = Some y \<and> Rotor_revTransform r y = Some c"
proof -
  let ?k = "(c + pos r) mod 26"
  from assms(1) obtain v where v: "letter v" "map_of (map_r r) ?k = Some v" "map_of (revMap r) v = Some ?k"
    unfolding wired_def using letter_mod by blast
  let ?y = "(v - pos r) mod 26"
  have t: "Rotor_transform r c = Some ?y" using v(2) by (simp add: Rotor_transform_def Utils_mod_def)
  have "(?y + pos r) mod 26 = v" using letter_mod_id [OF v(1)] by (simp add: mod_simps)
  moreover have "(?k - pos r) mod 26 = c" using letter_mod_id [OF assms(2)] by (simp add: mod_simps)
  ultimately have "Rotor_revTransform r ?y = Some c"
    using v(3) by (simp add: Rotor_revTransform_def Utils_mod_def)
  with t show ?thesis by simp
qed

lemma Rotor_revTransform_wired:
  assumes "wired r" and "letter c"
  shows "\<exists>y. letter y \<and> Rotor_revTransform r c = Some y \<and> Rotor_transform r y = Some c"
proof -
  let ?k = "(c + pos r) mod 26"
  from assms(1) obtain v where v: "letter v" "map_of (revMap r) ?k = Some v" "map_of (map_r r) v = Some ?k"
    unfolding wired_def using letter_mod by blast
  let ?y = "(v - pos r) mod 26"
  have t: "Rotor_revTransform r c = Some ?y" using v(2) by (simp add: Rotor_revTransform_def Utils_mod_def)
  have "(?y + pos r) mod 26 = v" using letter_mod_id [OF v(1)] by (simp add: mod_simps)
  moreover have "(?k - pos r) mod 26 = c" using letter_mod_id [OF assms(2)] by (simp add: mod_simps)
  ultimately have "Rotor_transform r ?y = Some c"
    using v(3) by (simp add: Rotor_transform_def Utils_mod_def)
  with t show ?thesis by simp
qed

lemma forward_Cons: "forward (r # rs) (Some x) = forward rs (Rotor_transform r x)"
  by (simp add: forward_def)

lemma backward_Cons: "backward (r # rs) y = Option.bind (backward rs y) (Rotor_revTransform r)"
  by (simp add: backward_def)

lemma forward_backward:
  assumes "\<forall>r\<in>set rs. wired r" and "letter x"
  shows "\<exists>y. letter y \<and> forward rs (Some x) = Some y \<and> backward rs (Some y) = Some x"
  using assms
proof (induction rs arbitrary: x)
  case Nil
  then show ?case by (simp add: forward_def backward_def)
next
  case (Cons r rs)
  then have "wired r" by simp
  from Rotor_transform_wired [OF this Cons.prems(2)] obtain x1 where
    x1: "letter x1" "Rotor_transform r x = Some x1" "Rotor_revTransform r x1 = Some x" by blast
  from Cons.prems(1) have "\<forall>r\<in>set rs. wired r" by simp
  from Cons.IH [OF this x1(1)] obtain y where
    y: "letter y" "forward rs (Some x1) = Some y" "backward rs (Some y) = Some x1" by blast
  then show ?case using x1 by (auto simp: forward_Cons backward_Cons)
qed

lemma backward_forward:
  assumes "\<forall>r\<in>set rs. wired r" and "letter y"
  shows "\<exists>x. letter x \<and> backward rs (Some y) = Some x \<and> forward rs (Some x) = Some y"
  using assms
proof (induction rs)
  case Nil
  then show ?case by (simp add: forward_def backward_def)
next
  case (Cons r rs)
  then obtain x1 where
    x1: "letter x1" "backward rs (Some y) = Some x1" "forward rs (Some x1) = Some y" by auto
  from Cons.prems have "wired r" by simp
  from Rotor_revTransform_wired [OF this x1(1)] obtain x where
    x: "letter x" "Rotor_revTransform r x1 = Some x" "Rotor_transform r x = Some x1" by blast
  then show ?case using x1 by (auto simp: forward_Cons backward_Cons)
qed

lemma revTransform_eq: "PairMapBase_revTransform m = PairMapBase_transform m"
  by (rule ext) (simp add: PairMapBase_revTransform_def)

lemma signal_alt:
  "signal m x =
     map_option (PairMapBase_transform (plugboard m))
       (backward (rotors m)
         (map_option (PairMapBase_transform (reflector m))
           (forward (rotors m) (Some (PairMapBase_transform (plugboard m) x)))))"
  by (simp add: signal_def forward_def backward_def rotorsRev_def revTransform_eq Let_def)

lemma signal_ok:
  assumes "machine_ok m" and "letter x"
  shows "\<exists>z. letter z \<and> signal m x = Some z \<and> signal m z = Some x \<and> z \<noteq> x"
proof -
  let ?P = "PairMapBase_transform (plugboard m)" and ?U = "PairMapBase_transform (reflector m)"
  from assms(1) have w: "\<forall>r\<in>set (rotors m). wired r" and pU: "paired (reflector m)"
    and cU: "complete (reflector m)" and pP: "paired (plugboard m)"
    by (simp_all add: machine_ok_def)
  have lp: "letter (?P x)" by (rule transform_letter [OF pP assms(2)])
  from forward_backward [OF w lp] obtain y where
    y: "letter y" "forward (rotors m) (Some (?P x)) = Some y" "backward (rotors m) (Some y) = Some (?P x)"
    by blast
  have lu: "letter (?U y)" by (rule transform_letter [OF pU y(1)])
  from backward_forward [OF w lu] obtain q where
    q: "letter q" "backward (rotors m) (Some (?U y)) = Some q" "forward (rotors m) (Some q) = Some (?U y)"
    by blast
  have s1: "signal m x = Some (?P q)" using y q by (simp add: signal_alt)
  have "signal m (?P q) = Some (?P (?P x))"
    using y q by (simp add: signal_alt transform_involution [OF pP] transform_involution [OF pU])
  then have s2: "signal m (?P q) = Some x" by (simp add: transform_involution [OF pP])
  have "?P q \<noteq> x"
  proof
    assume "?P q = x"
    then have "?P (?P q) = ?P x" by simp
    then have "q = ?P x" by (simp add: transform_involution [OF pP])
    with q(3) y(2) have "?U y = y" by simp
    with transform_no_fixpoint [OF pU cU y(1)] show False by simp
  qed
  with s1 s2 transform_letter [OF pP q(1)] show ?thesis by blast
qed

section \<open>Stepping and the loop of crypt\<close>

lemma upd_noop: "j \<noteq> k \<Longrightarrow> xs[j := a, k := xs ! k] = xs[j := a]"
  by (metis list_update_id list_update_swap)

lemma upd_noop2: "i \<noteq> k \<Longrightarrow> j \<noteq> k \<Longrightarrow> xs[i := a, j := b, k := xs ! k] = xs[i := a, j := b]"
  by (metis list_update_id list_update_swap)

lemma step_result:
  assumes "3 \<le> length (rotors m)"
  shows "step m = Inr (m\<lparr>rotors := (rotors m)
           [0 := Rotor_step (rotors m ! 0),
            1 := (if pos (Rotor_step (rotors m ! 0)) \<in> steps (rotors m ! 0)
                     \<or> pos (Rotor_step (rotors m ! 1)) \<in> steps (rotors m ! 1)
                  then Rotor_step (rotors m ! 1) else rotors m ! 1),
            2 := (if (pos (Rotor_step (rotors m ! 0)) \<in> steps (rotors m ! 0)
                      \<or> pos (Rotor_step (rotors m ! 1)) \<in> steps (rotors m ! 1))
                     \<and> pos (Rotor_step (rotors m ! 1)) \<in> steps (rotors m ! 1)
                  then Rotor_step (rotors m ! 2) else rotors m ! 2)]\<rparr>)"
proof -
  have l: "\<not> length (rotors m) < 2" "\<not> length (rotors m) < 3" using assms by simp_all
  have s: "steps (Rotor_step r) = steps r" "pos (Rotor_step r) = Utils_mod (pos r + 1) 26" for r
    by (simp_all add: Rotor_step_def)
  show ?thesis
    unfolding step_def Let_def using l
    by (simp add: s upd_noop upd_noop2)
qed

lemma wired_update:
  assumes "\<forall>r\<in>set rs. wired r" and "wired v"
  shows "\<forall>r\<in>set (rs[i := v]). wired r"
  using assms set_update_subset_insert [of rs i v] by auto

lemma step_ok:
  assumes "machine_ok m"
  shows "\<exists>m'. step m = Inr m' \<and> machine_ok m'"
proof -
  from assms have l: "3 \<le> length (rotors m)" and w: "\<forall>r\<in>set (rotors m). wired r"
    by (simp_all add: machine_ok_def)
  have n: "wired (rotors m ! i)" if "i < 3" for i
    using w l that by simp
  let ?rs = "(rotors m)
           [0 := Rotor_step (rotors m ! 0),
            1 := (if pos (Rotor_step (rotors m ! 0)) \<in> steps (rotors m ! 0)
                     \<or> pos (Rotor_step (rotors m ! 1)) \<in> steps (rotors m ! 1)
                  then Rotor_step (rotors m ! 1) else rotors m ! 1),
            2 := (if (pos (Rotor_step (rotors m ! 0)) \<in> steps (rotors m ! 0)
                      \<or> pos (Rotor_step (rotors m ! 1)) \<in> steps (rotors m ! 1))
                     \<and> pos (Rotor_step (rotors m ! 1)) \<in> steps (rotors m ! 1)
                  then Rotor_step (rotors m ! 2) else rotors m ! 2)]"
  have "\<forall>r\<in>set ?rs. wired r"
    by (intro wired_update w) (simp_all add: n)
  then have "machine_ok (m\<lparr>rotors := ?rs\<rparr>)"
    using assms by (simp add: machine_ok_def)
  then show ?thesis using step_result [OF l] by simp
qed

lemma a2i_permissive:
  "a2i l True = Inr (if is_AZ l then int l - 65 else if 97 \<le> l \<and> l \<le> 122 then int l - 97 else - 1)"
  by (auto simp: a2i_def Utils_ord_def is_AZ_def Let_def)

lemma a2i_other: "\<not> is_letter l \<Longrightarrow> a2i l True = Inr (- 1)"
  by (simp add: a2i_permissive is_letter_def)

lemma a2i_letter:
  assumes "is_letter l"
  shows "\<exists>x. a2i l True = Inr x \<and> letter x \<and> toUpper l = nat (x + 65)"
  using assms
  by (auto simp: a2i_permissive is_letter_def is_AZ_def letter_def toUpper_def)

lemma crypt_loop_other:
  "\<not> is_letter l \<Longrightarrow> crypt_loop m res (l # ls) = crypt_loop m (res @ [l]) ls"
  by (simp add: a2i_other)

declare crypt_loop.simps(2) [simp del]

lemma i2a_letter: "letter z \<Longrightarrow> i2a z = Inr (nat (z + 65))"
  by (simp add: i2a_def letter_def Utils_chr_def)

lemma out_char:
  assumes "letter z"
  shows "is_AZ (nat (z + 65))" and "is_letter (nat (z + 65))" and "a2i (nat (z + 65)) True = Inr z"
    and "toUpper (nat (z + 65)) = nat (z + 65)"
  using assms by (auto simp: a2i_permissive is_letter_def is_AZ_def letter_def toUpper_def)

lemma crypt_loop_letter:
  assumes "machine_ok m" and "is_letter l"
  shows "\<exists>m1 x z. a2i l True = Inr x \<and> letter x \<and> toUpper l = nat (x + 65)
           \<and> step m = Inr m1 \<and> machine_ok m1
           \<and> signal m1 x = Some z \<and> signal m1 z = Some x \<and> letter z \<and> z \<noteq> x
           \<and> (\<forall>res ls. crypt_loop m res (l # ls) = crypt_loop m1 (res @ [nat (z + 65)]) ls)"
proof -
  from a2i_letter [OF assms(2)] obtain x where
    x: "a2i l True = Inr x" "letter x" "toUpper l = nat (x + 65)" by blast
  from step_ok [OF assms(1)] obtain m1 where m1: "step m = Inr m1" "machine_ok m1" by blast
  from signal_ok [OF m1(2) x(2)] obtain z where
    z: "letter z" "signal m1 x = Some z" "signal m1 z = Some x" "z \<noteq> x" by blast
  have nx: "x \<noteq> - 1" using x(2) by (auto simp: letter_def)
  have "crypt_loop m res (l # ls) = crypt_loop m1 (res @ [nat (z + 65)]) ls" for res ls
    using x(1) nx m1(1) z(2) i2a_letter [OF z(1)] by (simp add: crypt_loop.simps(2))
  with x m1 z show ?thesis by blast
qed

lemma crypt_loop_roundtrip:
  assumes "machine_ok m"
  shows "\<exists>m' out. crypt_loop m res s = Inr (m', res @ out) \<and> length out = length s
           \<and> machine_ok m'
           \<and> (\<forall>res2. crypt_loop m res2 out = Inr (m', res2 @ map toUpper s))"
  using assms
proof (induction s arbitrary: m res)
  case Nil
  then show ?case by simp
next
  case (Cons l ls)
  show ?case
  proof (cases "is_letter l")
    case False
    from Cons.IH [OF Cons.prems, of "res @ [l]"] obtain m' out where
      o: "crypt_loop m (res @ [l]) ls = Inr (m', (res @ [l]) @ out)" "length out = length ls"
         "machine_ok m'" "\<forall>res2. crypt_loop m res2 out = Inr (m', res2 @ map toUpper ls)"
      by blast
    have u: "toUpper l = l" using False by (auto simp: toUpper_def is_letter_def)
    have "crypt_loop m res (l # ls) = Inr (m', res @ (l # out))"
      using o(1) by (simp add: crypt_loop_other [OF False])
    moreover have "crypt_loop m res2 (l # out) = Inr (m', res2 @ map toUpper (l # ls))" for res2
      using o(4) [rule_format, of "res2 @ [l]"] by (simp add: crypt_loop_other [OF False] u)
    ultimately show ?thesis using o(2,3) by (intro exI [of _ m'] exI [of _ "l # out"]) simp
  next
    case True
    from crypt_loop_letter [OF Cons.prems True] obtain m1 x z where
      c: "toUpper l = nat (x + 65)" "machine_ok m1" "letter x" "letter z"
         "step m = Inr m1" "signal m1 z = Some x"
         "\<forall>res ls. crypt_loop m res (l # ls) = crypt_loop m1 (res @ [nat (z + 65)]) ls"
      by blast
    let ?ch = "nat (z + 65)"
    from Cons.IH [OF c(2), of "res @ [?ch]"] obtain m' out where
      o: "crypt_loop m1 (res @ [?ch]) ls = Inr (m', (res @ [?ch]) @ out)" "length out = length ls"
         "machine_ok m'" "\<forall>res2. crypt_loop m1 res2 out = Inr (m', res2 @ map toUpper ls)"
      by blast
    have "crypt_loop m res (l # ls) = Inr (m', res @ (?ch # out))"
      using o(1) c(7) by simp
    moreover have "crypt_loop m res2 (?ch # out) = Inr (m', res2 @ map toUpper (l # ls))" for res2
    proof -
      have nz: "z \<noteq> - 1" using c(4) by (auto simp: letter_def)
      have "crypt_loop m res2 (?ch # out) = crypt_loop m1 (res2 @ [nat (x + 65)]) out"
        using out_char(3) [OF c(4)] nz c(5,6) i2a_letter [OF c(3)] by (simp add: crypt_loop.simps(2))
      then show ?thesis using o(4) [rule_format, of "res2 @ [nat (x + 65)]"] c(1) by simp
    qed
    ultimately show ?thesis using o(2,3) by (intro exI [of _ m'] exI [of _ "?ch # out"]) simp
  qed
qed

lemma new_Rotors_wired:
  assumes "new_Rotors specs = Inr rs"
  shows "length rs = length specs \<and> (\<forall>r\<in>set rs. wired r)"
  using assms
proof (induction specs arbitrary: rs)
  case Nil
  then show ?case by simp
next
  case (Cons spec specs)
  obtain w s g p where spec: "spec = (w, s, g, p)" by (cases spec)
  from Cons.prems obtain r rs' where
    r: "new_Rotor w s g p = Inr r" and rs': "new_Rotors specs = Inr rs'" and rs: "rs = r # rs'"
    unfolding spec by (auto split: sum.splits)
  from Cons.IH [OF rs'] new_Rotor_wired [OF r] rs show ?case by simp
qed

lemma new_EnigmaMachine_Inr:
  assumes "new_EnigmaMachine rs rf pb = Inr m"
  shows "rotors m = rs" and "reflector m = rf" and "plugboard m = pb"
    and "length rs = 3 \<or> length rs = 4"
  using assms by (auto simp: new_EnigmaMachine_def new_EnigmaBase_def Let_def split: if_splits)

lemma assemble_ok:
  assumes "assemble specs rp pp = Inr m"
  shows "machine_ok m"
proof -
  from assms obtain rs rf pb where
    rs: "new_Rotors specs = Inr rs" and rf: "new_Reflector rp = Inr rf"
    and pb: "new_Plugboard pp = Inr pb" and m: "new_EnigmaMachine rs rf pb = Inr m"
    by (auto simp: assemble_def split: sum.splits)
  from new_EnigmaMachine_Inr [OF m] new_Rotors_wired [OF rs] new_Reflector_ok [OF rf]
    new_Plugboard_ok [OF pb]
  show ?thesis by (auto simp: machine_ok_def)
qed

lemma example_assembles: "\<exists>m. assemble example_specs example_reflector example_plugboard = Inr m"
  by (simp add: example_specs_def example_reflector_def example_plugboard_def ev)

lemma crypt_state_ok:
  assumes "machine_ok m" and "crypt m s = Inr (m', out)"
  shows "machine_ok m'"
  using crypt_loop_roundtrip [OF assms(1), of "[]" s] assms(2) by (auto simp: crypt_def)

section \<open>The claims\<close>

text \<open>
  C1 (round trip). For every configuration that constructs a machine and every input string,
  \<open>crypt\<close> on a machine freshly constructed from the configuration returns a ciphertext,
  and \<open>crypt\<close> on a second machine freshly constructed from the same configuration, given
  that ciphertext, returns the input with its letters in upper case and every other character
  as it was. Both runs end in the same machine state.
\<close>

theorem crypt_roundtrip:
  assumes "assemble specs reflectorPairs plugboardPairs = Inr m"
  shows "\<exists>m' ciphertext. crypt m input = Inr (m', ciphertext)
           \<and> crypt m ciphertext = Inr (m', map toUpper input)"
  using crypt_loop_roundtrip [OF assemble_ok [OF assms], of "[]" input]
  by (auto simp: crypt_def)

theorem crypt_roundtrip_witness:
  "\<exists>m m' ciphertext. assemble example_specs example_reflector example_plugboard = Inr m
     \<and> crypt m (js ''Hello, World!'') = Inr (m', ciphertext)
     \<and> crypt m ciphertext = Inr (m', js ''HELLO, WORLD!'')"
proof -
  from example_assembles obtain m where
    m: "assemble example_specs example_reflector example_plugboard = Inr m" by blast
  have u: "map toUpper (js ''Hello, World!'') = js ''HELLO, WORLD!''"
    by (simp add: js_def toUpper_def)
  from crypt_roundtrip [OF m, of "js ''Hello, World!''"] m show ?thesis
    unfolding u by blast
qed

text \<open>
  C8 (no runtime errors). For every constructed machine and every input string, \<open>crypt\<close>
  returns a result, of the length of the input. In the state reached, and so in every state
  \<open>crypt\<close> can reach, the rotors step without error and the signal path takes every letter
  index to an index in \<open>0..25\<close>, on which \<open>i2a\<close> does not raise.
\<close>

theorem crypt_no_error:
  assumes "assemble specs reflectorPairs plugboardPairs = Inr m"
  shows "\<exists>m' out. crypt m input = Inr (m', out) \<and> length out = length input
           \<and> (\<forall>x. letter x \<longrightarrow>
                (\<exists>m1 i. step m' = Inr m1 \<and> signal m1 x = Some i \<and> 0 \<le> i \<and> i < 26
                   \<and> i2a i = Inr (Utils_chr (i + 65))))"
proof -
  from crypt_loop_roundtrip [OF assemble_ok [OF assms], of "[]" input] obtain m' out where
    o: "crypt m input = Inr (m', out)" "length out = length input" "machine_ok m'"
    by (auto simp: crypt_def)
  have "\<exists>m1 i. step m' = Inr m1 \<and> signal m1 x = Some i \<and> 0 \<le> i \<and> i < 26
           \<and> i2a i = Inr (Utils_chr (i + 65))" if "letter x" for x
  proof -
    from step_ok [OF o(3)] obtain m1 where m1: "step m' = Inr m1" "machine_ok m1" by blast
    from signal_ok [OF m1(2) that] obtain i where "letter i" "signal m1 x = Some i" by blast
    with m1(1) show ?thesis by (auto simp: letter_def i2a_def)
  qed
  with o show ?thesis by blast
qed

theorem crypt_no_error_witness:
  "\<exists>m m' out m1 i. assemble example_specs example_reflector example_plugboard = Inr m
     \<and> crypt m (js ''Attack at dawn, 5 a.m.'') = Inr (m', out) \<and> length out = 22
     \<and> letter 7 \<and> step m' = Inr m1 \<and> signal m1 7 = Some i \<and> 0 \<le> i \<and> i < 26"
proof -
  from example_assembles obtain m where
    m: "assemble example_specs example_reflector example_plugboard = Inr m" by blast
  have l: "letter 7" by (simp add: letter_def)
  from crypt_no_error [OF m, of "js ''Attack at dawn, 5 a.m.''"] m l show ?thesis
    by (fastforce simp: js_def)
qed

text \<open>
  C9 (no self-encryption). In every state that a constructed machine reaches by encrypting
  some input, the character that \<open>crypt\<close> produces for a letter is a capital letter other
  than the capital of that letter.
\<close>

theorem no_self_encryption:
  assumes "assemble specs reflectorPairs plugboardPairs = Inr m0"
    and "crypt m0 before = Inr (m, out0)"
    and "is_letter l"
  shows "\<exists>m' ch. crypt m [l] = Inr (m', [ch]) \<and> is_AZ ch \<and> ch \<noteq> toUpper l"
proof -
  have ok: "machine_ok m" by (rule crypt_state_ok [OF assemble_ok [OF assms(1)] assms(2)])
  from crypt_loop_letter [OF ok assms(3)] obtain m1 x z where
    c: "toUpper l = nat (x + 65)" "letter x" "letter z" "z \<noteq> x"
       "\<forall>res ls. crypt_loop m res (l # ls) = crypt_loop m1 (res @ [nat (z + 65)]) ls"
    by blast
  have "crypt m [l] = Inr (m1, [nat (z + 65)])" using c(5) by (simp add: crypt_def)
  moreover have "nat (z + 65) \<noteq> toUpper l" using c(1-4) by (auto simp: letter_def)
  ultimately show ?thesis using out_char(1) [OF c(3)] by blast
qed

theorem no_self_encryption_witness:
  "\<exists>m0 m out0 m' ch. assemble example_specs example_reflector example_plugboard = Inr m0
     \<and> crypt m0 (js ''Enigma'') = Inr (m, out0) \<and> is_letter 113
     \<and> crypt m [113] = Inr (m', [ch]) \<and> is_AZ ch \<and> ch \<noteq> 81"
proof -
  from example_assembles obtain m0 where
    m0: "assemble example_specs example_reflector example_plugboard = Inr m0" by blast
  from crypt_loop_roundtrip [OF assemble_ok [OF m0], of "[]" "js ''Enigma''"] obtain m out0 where
    p: "crypt m0 (js ''Enigma'') = Inr (m, out0)" by (auto simp: crypt_def)
  have l: "is_letter 113" by (simp add: is_letter_def)
  have u: "toUpper 113 = 81" by (simp add: toUpper_def)
  from no_self_encryption [OF m0 p l] m0 p l show ?thesis
    unfolding u by blast
qed

lemma assemble_machine:
  assumes "assemble specs rp pp = Inr m"
  shows "\<exists>rs rf pb. new_EnigmaMachine rs rf pb = Inr m"
  using assms by (auto simp: assemble_def split: sum.splits)

text \<open>
  C2 (stepping). On every machine that the \<open>EnigmaMachine\<close> constructor accepts, in any
  rotor state, \<open>step\<close> returns; rotor 0 advances by one position; rotor 1 advances exactly
  when the new position of rotor 0 is one of rotor 0's notches or the position of rotor 1
  advanced by one is one of rotor 1's notches; rotor 2 advances, once, exactly when rotor 1
  advanced and its new position is one of its notches; every further rotor, the reflector and
  the plugboard are unchanged. Advancing a rotor always changes it, so each of these cases
  can be told from the other.
\<close>

theorem step_algorithm:
  assumes "new_EnigmaMachine rs rf pb = Inr m"
  shows "\<exists>m'. step m = Inr m'
           \<and> reflector m' = reflector m \<and> plugboard m' = plugboard m
           \<and> length (rotors m') = length (rotors m)
           \<and> (let r0 = rotors m ! 0; r1 = rotors m ! 1; r2 = rotors m ! 2;
                   notch0 = ((pos r0 + 1) mod 26 \<in> steps r0);
                   notch1 = ((pos r1 + 1) mod 26 \<in> steps r1)
               in rotors m' ! 0 = r0\<lparr>pos := (pos r0 + 1) mod 26\<rparr>
                \<and> rotors m' ! 1 = (if notch0 \<or> notch1 then r1\<lparr>pos := (pos r1 + 1) mod 26\<rparr> else r1)
                \<and> rotors m' ! 2 =
                    (if (notch0 \<or> notch1) \<and> notch1 then r2\<lparr>pos := (pos r2 + 1) mod 26\<rparr> else r2)
                \<and> (\<forall>i. 3 \<le> i \<and> i < length (rotors m) \<longrightarrow> rotors m' ! i = rotors m ! i)
                \<and> r0\<lparr>pos := (pos r0 + 1) mod 26\<rparr> \<noteq> r0
                \<and> r1\<lparr>pos := (pos r1 + 1) mod 26\<rparr> \<noteq> r1
                \<and> r2\<lparr>pos := (pos r2 + 1) mod 26\<rparr> \<noteq> r2)"
proof -
  from new_EnigmaMachine_Inr [OF assms] have l: "3 \<le> length (rotors m)" by auto
  then have l': "0 < length (rotors m)" "1 < length (rotors m)" "2 < length (rotors m)"
    by auto
  have s: "steps (Rotor_step r) = steps r" "pos (Rotor_step r) = (pos r + 1) mod 26"
    "Rotor_step r = r\<lparr>pos := (pos r + 1) mod 26\<rparr>" for r
    by (simp_all add: Rotor_step_def Utils_mod_def)
  have ne: "r\<lparr>pos := (pos r + 1) mod 26\<rparr> \<noteq> r" for r :: Rotor
  proof
    assume "r\<lparr>pos := (pos r + 1) mod 26\<rparr> = r"
    then have "pos (r\<lparr>pos := (pos r + 1) mod 26\<rparr>) = pos r" by simp
    then have "(pos r + 1) mod 26 = pos r" by simp
    then show False by presburger
  qed
  show ?thesis
    unfolding step_result [OF l] Let_def s using l'
    by (simp add: ne)
qed

theorem step_algorithm_witness:
  "\<exists>m m'. assemble example_specs example_reflector example_plugboard = Inr m
     \<and> step m = Inr m' \<and> map pos (rotors m) = [21, 3, 0] \<and> map pos (rotors m') = [22, 4, 1]"
proof -
  have "\<exists>m. assemble example_specs example_reflector example_plugboard = Inr m
          \<and> map pos (rotors m) = [21, 3, 0]
          \<and> map steps (rotors m) = [{22}, {4}, {17}]"
    by (simp add: example_specs_def example_reflector_def example_plugboard_def ev)
  then obtain m where m0: "assemble example_specs example_reflector example_plugboard = Inr m"
      "map pos (rotors m) = [21, 3, 0]" "map steps (rotors m) = [{22}, {4}, {17}]"
    by (elim exE conjE) (rule that)
  from assemble_machine [OF m0(1)] obtain rs rf pb where
    mk: "new_EnigmaMachine rs rf pb = Inr m" by (elim exE)
  note m = m0 mk
  from step_algorithm [OF m(4)] obtain m' where
    m': "step m = Inr m'" "length (rotors m') = length (rotors m)"
      "let r0 = rotors m ! 0; r1 = rotors m ! 1; r2 = rotors m ! 2;
                   notch0 = ((pos r0 + 1) mod 26 \<in> steps r0);
                   notch1 = ((pos r1 + 1) mod 26 \<in> steps r1)
               in rotors m' ! 0 = r0\<lparr>pos := (pos r0 + 1) mod 26\<rparr>
                \<and> rotors m' ! 1 = (if notch0 \<or> notch1 then r1\<lparr>pos := (pos r1 + 1) mod 26\<rparr> else r1)
                \<and> rotors m' ! 2 =
                    (if (notch0 \<or> notch1) \<and> notch1 then r2\<lparr>pos := (pos r2 + 1) mod 26\<rparr> else r2)"
    unfolding Let_def by blast
  from m(2,3) obtain r0 r1 r2 where rs3: "rotors m = [r0, r1, r2]"
    "pos r0 = 21" "pos r1 = 3" "pos r2 = 0" "steps r0 = {22}" "steps r1 = {4}"
    by auto
  from m'(2) rs3(1) obtain q0 q1 q2 where qs: "rotors m' = [q0, q1, q2]"
    by (cases "rotors m'"; cases "tl (rotors m')"; cases "tl (tl (rotors m'))") auto
  from m'(3) have p': "map pos (rotors m') = [22, 4, 1]"
    unfolding qs rs3(1) by (simp add: rs3 Let_def)
  show ?thesis
    by (rule exI [of _ m], rule exI [of _ m'], intro conjI) (fact m(1) m'(1) m(2) p')+
qed

text \<open>
  C4 (pair substitutions are involutions). The transform of every constructed reflector is
  its own inverse and moves every letter index in \<open>0..25\<close>; the transform of every
  constructed plugboard is its own inverse.
\<close>

theorem pair_involution:
  "(new_Reflector reflectorPairs = Inr rf \<longrightarrow>
      (\<forall>c. PairMapBase_transform rf (PairMapBase_transform rf c) = c)
      \<and> (\<forall>c. letter c \<longrightarrow> PairMapBase_transform rf c \<noteq> c))
   \<and> (new_Plugboard plugboardPairs = Inr pb \<longrightarrow>
      (\<forall>c. PairMapBase_transform pb (PairMapBase_transform pb c) = c))"
proof (intro conjI impI allI)
  fix c assume r: "new_Reflector reflectorPairs = Inr rf"
  show "PairMapBase_transform rf (PairMapBase_transform rf c) = c"
    by (rule transform_involution [OF new_Reflector_ok(1) [OF r]])
next
  fix c assume r: "new_Reflector reflectorPairs = Inr rf" and c: "letter c"
  show "PairMapBase_transform rf c \<noteq> c"
    by (rule transform_no_fixpoint [OF new_Reflector_ok [OF r] c])
next
  fix c assume p: "new_Plugboard plugboardPairs = Inr pb"
  show "PairMapBase_transform pb (PairMapBase_transform pb c) = c"
    by (rule transform_involution [OF new_Plugboard_ok [OF p]])
qed

theorem pair_involution_witness:
  "\<exists>rf pb. new_Reflector example_reflector = Inr rf \<and> new_Plugboard example_plugboard = Inr pb
     \<and> letter 2
     \<and> PairMapBase_transform rf (PairMapBase_transform rf 2) = 2
     \<and> PairMapBase_transform rf 2 \<noteq> 2
     \<and> PairMapBase_transform pb (PairMapBase_transform pb 2) = 2"
proof -
  have "\<exists>rf. new_Reflector example_reflector = Inr rf"
    by (simp add: example_reflector_def ev)
  then obtain rf where rf: "new_Reflector example_reflector = Inr rf" by (elim exE)
  have "\<exists>pb. new_Plugboard example_plugboard = Inr pb"
    by (simp add: example_plugboard_def ev)
  then obtain pb where pb: "new_Plugboard example_plugboard = Inr pb" by (elim exE)
  have l: "letter 2" by (simp add: letter_def)
  note t = pair_involution [of example_reflector rf example_plugboard pb]
  from t rf have a: "PairMapBase_transform rf (PairMapBase_transform rf 2) = 2" by simp
  from t rf l have b: "PairMapBase_transform rf 2 \<noteq> 2" by simp
  from t pb have c: "PairMapBase_transform pb (PairMapBase_transform pb 2) = 2" by simp
  show ?thesis
    by (rule exI [of _ rf], rule exI [of _ pb], intro conjI) (fact rf pb l a b c)+
qed

text \<open>
  C5 (rotor transform). For a constructed rotor turned to any position \<open>p\<close> and a letter
  index \<open>c\<close>: \<open>map\<close> has an entry \<open>v\<close> at \<open>(c + p) mod 26\<close> and \<open>transform\<close> returns
  \<open>(v - p) mod 26\<close>; \<open>revTransform\<close> does the same with \<open>revMap\<close>; \<open>revMap\<close> is the
  inverse of \<open>map\<close> on the letter indices; and \<open>revTransform\<close> takes the result of
  \<open>transform\<close> back to \<open>c\<close>.
\<close>

theorem rotor_transform_formula:
  assumes "new_Rotor wiring stepsStr ringSetting initialPosition = Inr r0" and "letter c"
  shows "\<exists>v u. map_of (map_r (r0\<lparr>pos := p\<rparr>)) ((c + p) mod 26) = Some v
           \<and> Rotor_transform (r0\<lparr>pos := p\<rparr>) c = Some ((v - p) mod 26)
           \<and> map_of (revMap (r0\<lparr>pos := p\<rparr>)) ((c + p) mod 26) = Some u
           \<and> Rotor_revTransform (r0\<lparr>pos := p\<rparr>) c = Some ((u - p) mod 26)
           \<and> (\<forall>a b. letter a \<and> letter b \<longrightarrow>
                 (map_of (map_r r0) a = Some b \<longleftrightarrow> map_of (revMap r0) b = Some a))
           \<and> Option.bind (Rotor_transform (r0\<lparr>pos := p\<rparr>) c) (Rotor_revTransform (r0\<lparr>pos := p\<rparr>))
               = Some c"
proof -
  let ?r = "r0\<lparr>pos := p\<rparr>"
  have w0: "wired r0" by (rule new_Rotor_wired [OF assms(1)])
  then have w: "wired ?r" by simp
  have k: "letter ((c + p) mod 26)" by simp
  from w0 k obtain v where v: "map_of (map_r r0) ((c + p) mod 26) = Some v"
    unfolding wired_def by blast
  from w0 k obtain u where u: "map_of (revMap r0) ((c + p) mod 26) = Some u"
    unfolding wired_def by blast
  have t: "Rotor_transform ?r c = Some ((v - p) mod 26)"
    using v by (simp add: Rotor_transform_def Utils_mod_def)
  have rt: "Rotor_revTransform ?r c = Some ((u - p) mod 26)"
    using u by (simp add: Rotor_revTransform_def Utils_mod_def)
  have inv: "map_of (map_r r0) a = Some b \<longleftrightarrow> map_of (revMap r0) b = Some a"
    if "letter a \<and> letter b" for a b
  proof
    assume "map_of (map_r r0) a = Some b"
    moreover from w0 that obtain v' where "map_of (map_r r0) a = Some v'" "map_of (revMap r0) v' = Some a"
      unfolding wired_def by blast
    ultimately show "map_of (revMap r0) b = Some a" by simp
  next
    assume "map_of (revMap r0) b = Some a"
    moreover from w0 that obtain k' where "map_of (revMap r0) b = Some k'" "map_of (map_r r0) k' = Some b"
      unfolding wired_def by blast
    ultimately show "map_of (map_r r0) a = Some b" by simp
  qed
  from Rotor_transform_wired [OF w assms(2)] obtain y where
    "Rotor_transform ?r c = Some y" "Rotor_revTransform ?r y = Some c" by blast
  then have b: "Option.bind (Rotor_transform ?r c) (Rotor_revTransform ?r) = Some c" by simp
  from v t u rt inv b show ?thesis by simp
qed

theorem rotor_transform_formula_witness:
  "\<exists>r0. new_Rotor (js ''EKMFLGDQVZNTOWYHXUSPAIBRCJ'') (js ''R'') (js ''C'') (js ''K'') = Inr r0
     \<and> letter 7
     \<and> Option.bind (Rotor_transform (r0\<lparr>pos := 11\<rparr>) 7) (Rotor_revTransform (r0\<lparr>pos := 11\<rparr>))
         = Some 7"
proof -
  have "\<exists>r0. new_Rotor (js ''EKMFLGDQVZNTOWYHXUSPAIBRCJ'') (js ''R'') (js ''C'') (js ''K'') = Inr r0"
    by (simp add: ev)
  then obtain r0 where
    r0: "new_Rotor (js ''EKMFLGDQVZNTOWYHXUSPAIBRCJ'') (js ''R'') (js ''C'') (js ''K'') = Inr r0"
    by (elim exE)
  have l: "letter 7" by (simp add: letter_def)
  from rotor_transform_formula [OF r0 l, of 11]
  have "Option.bind (Rotor_transform (r0\<lparr>pos := 11\<rparr>) 7) (Rotor_revTransform (r0\<lparr>pos := 11\<rparr>))
         = Some 7" by (elim exE conjE)
  with r0 l show ?thesis by (intro exI [of _ r0] conjI)
qed

lemmas ev_run =
  run_def run_rotors_def parse_new_Rotor_def parseRotorStr_def core_def ROTORS_def
  REFLECTORS_def is_letter_def vector_args_def crypt_text_def rotor_I_def rotor_II_def
  rotor_III_def example_reflector_def example_plugboard_def example_specs_def crypt_loop.simps

text \<open>
  C3, as stated, fails. With rotor I in the first (right-hand) place, rotor II in the second
  and rotor III in the third, every ring setting and position \<open>A\<close>, reflector B and no
  plugboard cable, the input \<open>AAAAA\<close> gives \<open>FTZMG\<close>, through the constructors and
  through \<open>run\<close> alike.
\<close>

theorem known_vector_counterexample:
  "crypt_text [rotor_I, rotor_II, rotor_III] example_reflector [] (js ''AAAAA'') = Inr (js ''FTZMG'')
   \<and> run (js ''AAAAA'') (vector_args (snd (ROTORS ! 0)) (snd (ROTORS ! 1)) (snd (ROTORS ! 2)) False)
       = Inr (js ''FTZMG'')
   \<and> js ''FTZMG'' \<noteq> js ''BDZGO''"
  by (simp add: ev ev_run)

text \<open>
  C3, amended. With rotors I, II, III from left to right, that is rotor III in the first
  (right-hand) place, rotor II in the second and rotor I in the third, the default order of
  the operation, the same settings give \<open>BDZGO\<close> for \<open>AAAAA\<close>.
\<close>

theorem known_vector:
  "crypt_text [rotor_III, rotor_II, rotor_I] example_reflector [] (js ''AAAAA'') = Inr (js ''BDZGO'')
   \<and> run (js ''AAAAA'') (vector_args (snd (ROTORS ! 2)) (snd (ROTORS ! 1)) (snd (ROTORS ! 0)) False)
       = Inr (js ''BDZGO'')"
  by (simp add: ev ev_run)

lemma crypt_loop_append:
  "crypt_loop m res (s1 @ s2) =
     (case crypt_loop m res s1 of Inl e \<Rightarrow> Inl e | Inr (m1, r1) \<Rightarrow> crypt_loop m1 r1 s2)"
proof (induction s1 arbitrary: m res)
  case Nil
  then show ?case by simp
next
  case (Cons l ls)
  show ?case
    by (simp add: crypt_loop.simps(2) Cons.IH split: sum.splits option.splits)
qed

lemma crypt_loop_nsteps:
  assumes "machine_ok m" and "crypt_loop m res s = Inr (m', out)"
  shows "nsteps (length (filter is_letter s)) m = Inr m'"
  using assms
proof (induction s arbitrary: m res)
  case Nil
  then show ?case by simp
next
  case (Cons l ls)
  show ?case
  proof (cases "is_letter l")
    case False
    with Cons.prems(2) have "crypt_loop m (res @ [l]) ls = Inr (m', out)"
      by (simp add: crypt_loop_other)
    from Cons.IH [OF Cons.prems(1) this] False show ?thesis by simp
  next
    case True
    from crypt_loop_letter [OF Cons.prems(1) True] obtain m1 z where
      c: "step m = Inr m1" "machine_ok m1"
         "\<forall>res ls. crypt_loop m res (l # ls) = crypt_loop m1 (res @ [nat (z + 65)]) ls"
      by blast
    with Cons.prems(2) have "crypt_loop m1 (res @ [nat (z + 65)]) ls = Inr (m', out)" by simp
    from Cons.IH [OF c(2) this] True c(1) show ?thesis by simp
  qed
qed

lemma crypt_total:
  assumes "machine_ok m"
  shows "\<exists>m' out. crypt m s = Inr (m', out) \<and> length out = length s \<and> machine_ok m'"
  using crypt_loop_roundtrip [OF assms, of "[]" s] by (auto simp: crypt_def)

lemma crypt_loop_acc:
  "crypt_loop m res s =
     (case crypt_loop m [] s of Inl e \<Rightarrow> Inl e | Inr (m', out) \<Rightarrow> Inr (m', res @ out))"
proof (induction s arbitrary: m res)
  case Nil
  then show ?case by simp
next
  case (Cons l ls)
  have IH1: "crypt_loop m' (res @ [ch]) ls =
      (case crypt_loop m' [] ls of Inl e \<Rightarrow> Inl e | Inr (m'', out) \<Rightarrow> Inr (m'', (res @ [ch]) @ out))"
    for m' ch by (rule Cons.IH)
  have IH2: "crypt_loop m' [ch] ls =
      (case crypt_loop m' [] ls of Inl e \<Rightarrow> Inl e | Inr (m'', out) \<Rightarrow> Inr (m'', [ch] @ out))"
    for m' ch by (rule Cons.IH)
  show ?case
    by (simp add: crypt_loop.simps(2) IH1 IH2 split: sum.splits option.splits)
qed

text \<open>
  C6 (non-letters pass through and leave the machine alone). Take a constructed machine, an
  input and a character \<open>l\<close> of it that is not a letter, with the input before it and
  the input after it. \<open>crypt\<close> returns on the part before \<open>l\<close>, in some state and with
  an output as long as that part; on that part followed by \<open>l\<close> it returns the same state
  and the same output followed by \<open>l\<close>, so \<open>l\<close> is emitted at its own position and no
  rotor or other part of the machine has changed; the part after \<open>l\<close> is then processed
  from that same state. The final state is the initial one after as many calls of \<open>step\<close>
  as the input has letters. For \<open>A1B\<close> these are three characters with \<open>1\<close> in the
  middle and two calls of \<open>step\<close>.
\<close>

theorem non_letter_passthrough:
  assumes "assemble specs reflectorPairs plugboardPairs = Inr m" and "\<not> is_letter l"
  shows "\<exists>m1 out1 m2 out2.
           crypt m before = Inr (m1, out1) \<and> length out1 = length before
           \<and> crypt m (before @ [l]) = Inr (m1, out1 @ [l])
           \<and> crypt m1 after = Inr (m2, out2) \<and> length out2 = length after
           \<and> crypt m (before @ l # after) = Inr (m2, out1 @ l # out2)
           \<and> nsteps (length (filter is_letter (before @ l # after))) m = Inr m2"
proof -
  have ok: "machine_ok m" by (rule assemble_ok [OF assms(1)])
  from crypt_total [OF ok, of before] obtain m1 out1 where
    b: "crypt m before = Inr (m1, out1)" "length out1 = length before" "machine_ok m1" by blast
  from crypt_total [OF b(3), of after] obtain m2 out2 where
    a: "crypt m1 after = Inr (m2, out2)" "length out2 = length after" by blast
  have one: "crypt m (before @ [l]) = Inr (m1, out1 @ [l])"
    using b(1) by (simp add: crypt_def crypt_loop_append crypt_loop_other [OF assms(2)])
  have "crypt_loop m1 (out1 @ [l]) after = Inr (m2, (out1 @ [l]) @ out2)"
    using a(1) by (subst crypt_loop_acc) (simp add: crypt_def)
  then have all: "crypt m (before @ l # after) = Inr (m2, out1 @ l # out2)"
    using b(1) by (simp add: crypt_def crypt_loop_append crypt_loop_other [OF assms(2)])
  then have "crypt_loop m [] (before @ l # after) = Inr (m2, out1 @ l # out2)"
    by (simp add: crypt_def)
  from crypt_loop_nsteps [OF ok this]
  have n: "nsteps (length (filter is_letter (before @ l # after))) m = Inr m2" .
  from b(1,2) one a all n show ?thesis by blast
qed

theorem non_letter_passthrough_witness:
  "\<exists>m m1 out1 m2 out2.
     assemble example_specs example_reflector example_plugboard = Inr m
     \<and> \<not> is_letter 49
     \<and> crypt m (js ''A'') = Inr (m1, out1) \<and> length out1 = 1
     \<and> crypt m (js ''A1'') = Inr (m1, out1 @ js ''1'')
     \<and> crypt m1 (js ''B'') = Inr (m2, out2) \<and> length out2 = 1
     \<and> crypt m (js ''A1B'') = Inr (m2, out1 @ js ''1'' @ out2)
     \<and> length (out1 @ js ''1'' @ out2) = 3
     \<and> (out1 @ js ''1'' @ out2) ! 1 = 49
     \<and> nsteps 2 m = Inr m2"
proof -
  from example_assembles obtain m where
    m: "assemble example_specs example_reflector example_plugboard = Inr m" by blast
  have l: "\<not> is_letter 49" by (simp add: is_letter_def is_AZ_def)
  have n: "length (filter is_letter (js ''A'' @ 49 # js ''B'')) = 2"
    by (simp add: js_def is_letter_def is_AZ_def)
  from non_letter_passthrough [OF m l, of "js ''A''" "js ''B''"] obtain m1 out1 m2 out2 where
    w: "crypt m (js ''A'') = Inr (m1, out1)" "length out1 = length (js ''A'')"
       "crypt m (js ''A'' @ [49]) = Inr (m1, out1 @ [49])"
       "crypt m1 (js ''B'') = Inr (m2, out2)" "length out2 = length (js ''B'')"
       "crypt m (js ''A'' @ 49 # js ''B'') = Inr (m2, out1 @ 49 # out2)"
       "nsteps (length (filter is_letter (js ''A'' @ 49 # js ''B''))) m = Inr m2"
    by (elim exE conjE)
  have s: "js ''A'' @ [49] = js ''A1''" "js ''A'' @ 49 # js ''B'' = js ''A1B''" "js ''1'' = [49]"
    by (simp_all add: js_def)
  have l1: "length out1 = 1" "length out2 = 1" using w(2,5) by (simp_all add: js_def)
  then have l3: "length (out1 @ js ''1'' @ out2) = 3" "(out1 @ js ''1'' @ out2) ! 1 = 49"
    by (simp_all add: s(3) nth_append)
  have n2: "nsteps 2 m = Inr m2" using w(7) unfolding n .
  show ?thesis
    apply (rule exI [of _ m], rule exI [of _ m1], rule exI [of _ out1], rule exI [of _ m2],
        rule exI [of _ out2])
    using m l w(1,3,4,6) n2 l1 l3 unfolding s(1,2) by (simp add: s(3))
qed

lemma not_Inr_Inl: "(\<And>v. x \<noteq> Inr v) \<Longrightarrow> \<exists>e. x = Inl e"
  by (cases x) auto

lemma split_ws_not_Nil: "split_ws s \<noteq> []"
  by (subst split_ws.simps) (simp add: Let_def)

lemma split_ws_chars: "set (concat (split_ws s)) \<subseteq> set s"
proof (induction s rule: split_ws.induct)
  case (1 s)
  let ?tok = "takeWhile (\<lambda>c. \<not> is_ws c) s" and ?rest = "dropWhile (\<lambda>c. \<not> is_ws c) s"
  have t: "set ?tok \<subseteq> set s" by (auto dest: set_takeWhileD)
  show ?case
  proof (cases "?rest = []")
    case True
    then show ?thesis using t by (subst split_ws.simps) (simp add: Let_def)
  next
    case False
    from "1.IH" [OF refl refl False]
    have "set (concat (split_ws (dropWhile is_ws ?rest))) \<subseteq> set (dropWhile is_ws ?rest)" .
    also have "\<dots> \<subseteq> set ?rest" by (auto dest: set_dropWhileD)
    also have "\<dots> \<subseteq> set s" by (auto dest: set_dropWhileD)
    finally show ?thesis using t False by (subst split_ws.simps) (simp add: Let_def)
  qed
qed

lemma concat_shared:
  assumes "i < j" and "j < length xs" and "x \<in> set (xs ! i)" and "x \<in> set (xs ! j)"
  shows "\<not> distinct (concat xs)"
proof -
  have xs: "xs = take j xs @ xs ! j # drop (Suc j) xs"
    using assms(2) by (rule id_take_nth_drop)
  have "xs ! i \<in> set (take j xs)"
    using assms(1,2) by (auto simp: in_set_conv_nth intro!: exI [of _ i])
  with assms(3) have a: "x \<in> set (concat (take j xs))" by auto
  have "\<not> distinct (concat (take j xs @ xs ! j # drop (Suc j) xs))"
    using a assms(4) by auto
  with xs show ?thesis by simp
qed

lemma pairs_shared_letter:
  assumes "i < j" and "j < length (split_ws s)"
    and "x \<in> set (split_ws s ! i)" and "x \<in> set (split_ws s ! j)"
  shows "\<exists>e. new_PairMapBase s name = Inl e"
proof (rule not_Inr_Inl)
  fix m
  show "new_PairMapBase s name \<noteq> Inr m"
  proof
    assume ok: "new_PairMapBase s name = Inr m"
    have "s \<noteq> []" using assms(1,2) by (auto simp: split_ws_Nil)
    with ok have "add_pairs name (split_ws s) [] = Inr m" by (simp add: new_PairMapBase_def)
    from add_pairs_spec [OF this paired_Nil] have "distinct (concat (split_ws s))" by blast
    with concat_shared [OF assms] show False by simp
  qed
qed

lemma reflector_missing_letter:
  assumes "is_AZ c" and "c \<notin> set s"
  shows "\<exists>e. new_Reflector s = Inl e"
proof (rule not_Inr_Inl)
  fix m
  show "new_Reflector s \<noteq> Inr m"
  proof
    assume ok: "new_Reflector s = Inr m"
    from new_Reflector_Inr [OF ok] have b: "new_PairMapBase s ''Reflector'' = Inr m"
      and l: "length m = 26" by simp_all
    have "fst ` set m = {0..<26}"
      by (rule paired_full(1) [OF new_PairMapBase_paired [OF b] l])
    moreover have "int c - 65 \<in> {0..<26}" using is_AZ_letter [OF assms(1)] by (simp add: letter_def)
    ultimately have "int c - 65 \<in> (\<lambda>c. int c - 65) ` set (concat (split_ws s))"
      using new_PairMapBase_keys [OF b] by blast
    then obtain c' where "c' \<in> set (concat (split_ws s))" "int c - 65 = int c' - 65" by blast
    then have "c \<in> set (concat (split_ws s))" by simp
    with split_ws_chars [of s] assms(2) show False by blast
  qed
qed

lemma wire_error: "wire w is acc = Inl e \<Longrightarrow> e = A2iNotUppercase"
proof (induction "is" arbitrary: acc)
  case Nil
  then show ?case by simp
next
  case (Cons i "is")
  obtain m rm where acc: "acc = (m, rm)" by (cases acc)
  from Cons.prems show ?case
    unfolding acc
    by (auto simp: a2i_strict_Inl split: sum.splits dest: Cons.IH)
qed

lemma add_steps_error: "add_steps xs rs S = Inl e \<Longrightarrow> e = A2iNotUppercase"
  by (induction xs arbitrary: S) (auto simp: a2i_strict_Inl split: sum.splits)

lemma new_Rotor_error:
  assumes "new_Rotor w s g p = Inl e"
  shows "OperationError e"
proof -
  have "e \<in> {RotorWiringFormat, RotorStepsFormat, RotorRingFormat, RotorPositionFormat,
      RotorWiringNotUnique, RotorStepsNotUnique, A2iNotUppercase}"
    using assms
    by (auto simp: new_Rotor_def a2i_strict_Inl
        split: if_splits sum.splits prod.splits dest: wire_error add_steps_error)
  then show ?thesis by (auto simp: OperationError_def)
qed

lemma add_pairs_not_TypeError: "add_pairs name ts m \<noteq> Inl TypeError"
proof (induction ts arbitrary: m)
  case Nil
  then show ?case by simp
next
  case (Cons t ts)
  show ?case
    by (auto simp: a2i_strict_Inl Cons.IH split: if_splits sum.splits)
qed

lemma add_pairs_error: "add_pairs name ts m = Inl e \<Longrightarrow> OperationError e"
  unfolding OperationError_def using add_pairs_not_TypeError [of name ts m] by auto

lemma new_PairMapBase_error: "new_PairMapBase s name = Inl e \<Longrightarrow> OperationError e"
  by (auto simp: new_PairMapBase_def split: if_splits dest: add_pairs_error)

lemma new_Plugboard_error: "new_Plugboard s = Inl e \<Longrightarrow> OperationError e"
  unfolding new_Plugboard_def by (rule new_PairMapBase_error)

lemma new_Reflector_error: "new_Reflector s = Inl e \<Longrightarrow> OperationError e"
  by (auto simp: new_Reflector_def OperationError_def split: sum.splits if_splits
      dest: new_PairMapBase_error)

lemma rotor_repeated_letter:
  assumes "\<not> distinct w"
  shows "\<exists>e. new_Rotor w s g p = Inl e"
proof (rule not_Inr_Inl)
  fix r
  show "new_Rotor w s g p \<noteq> Inr r"
    using new_Rotor_distinct [of w s g p r] assms by blast
qed

lemma run_fails:
  assumes "(\<exists>e. run_rotors args = Inl e) \<or> (\<exists>e. new_Reflector (reflectorstr args) = Inl e)
             \<or> (\<exists>e. new_Plugboard (plugboardstr args) = Inl e)"
  shows "\<exists>e. run input args = Inl e"
  using assms by (auto simp: run_def core_def split: sum.splits)

text \<open>
  C7 (construction-time failure). A wiring with a repeated letter makes the \<open>Rotor\<close>
  constructor raise; a pair string in which two different pairs share a character makes the
  \<open>Plugboard\<close> constructor raise; a pair string that lacks one of the 26 capital letters
  makes the \<open>Reflector\<close> constructor raise; a list of rotors whose length is neither 3 nor
  4 makes the \<open>EnigmaMachine\<close> constructor raise. Each constructor returns the error in
  place of an object, so no machine exists on which \<open>crypt\<close> could be called; and when
  the construction of the rotors, the reflector or the plugboard fails in \<open>run\<close>, then
  \<open>run\<close> returns an error and no output.
\<close>

theorem construction_failures:
  "(\<not> distinct wiring \<longrightarrow>
      (\<exists>e. new_Rotor wiring stepsStr ringSetting initialPosition = Inl e \<and> OperationError e))
   \<and> (i < j \<and> j < length (split_ws plugboardPairs)
        \<and> x \<in> set (split_ws plugboardPairs ! i) \<and> x \<in> set (split_ws plugboardPairs ! j)
      \<longrightarrow> (\<exists>e. new_Plugboard plugboardPairs = Inl e \<and> OperationError e))
   \<and> (is_AZ c \<and> c \<notin> set reflectorPairs \<longrightarrow>
      (\<exists>e. new_Reflector reflectorPairs = Inl e \<and> OperationError e))
   \<and> (length rs \<noteq> 3 \<and> length rs \<noteq> 4 \<longrightarrow> new_EnigmaMachine rs rf pb = Inl RotorCount)
   \<and> ((\<exists>e. run_rotors args = Inl e) \<or> (\<exists>e. new_Reflector (reflectorstr args) = Inl e)
        \<or> (\<exists>e. new_Plugboard (plugboardstr args) = Inl e)
      \<longrightarrow> (\<exists>e. run input args = Inl e))"
proof (intro conjI impI)
  assume "\<not> distinct wiring"
  from rotor_repeated_letter [OF this, of stepsStr ringSetting initialPosition] obtain e where
    e: "new_Rotor wiring stepsStr ringSetting initialPosition = Inl e" by (elim exE)
  from e new_Rotor_error [OF e]
  show "\<exists>e. new_Rotor wiring stepsStr ringSetting initialPosition = Inl e \<and> OperationError e"
    by (intro exI conjI)
next
  assume "i < j \<and> j < length (split_ws plugboardPairs)
        \<and> x \<in> set (split_ws plugboardPairs ! i) \<and> x \<in> set (split_ws plugboardPairs ! j)"
  then have "\<exists>e. new_Plugboard plugboardPairs = Inl e"
    unfolding new_Plugboard_def by (intro pairs_shared_letter [of i j _ x]) simp_all
  then obtain e where e: "new_Plugboard plugboardPairs = Inl e" by (elim exE)
  from e new_Plugboard_error [OF e]
  show "\<exists>e. new_Plugboard plugboardPairs = Inl e \<and> OperationError e"
    by (intro exI conjI)
next
  assume "is_AZ c \<and> c \<notin> set reflectorPairs"
  then have "\<exists>e. new_Reflector reflectorPairs = Inl e"
    by (intro reflector_missing_letter [of c]) simp_all
  then obtain e where e: "new_Reflector reflectorPairs = Inl e" by (elim exE)
  from e new_Reflector_error [OF e]
  show "\<exists>e. new_Reflector reflectorPairs = Inl e \<and> OperationError e"
    by (intro exI conjI)
next
  assume "length rs \<noteq> 3 \<and> length rs \<noteq> 4"
  then show "new_EnigmaMachine rs rf pb = Inl RotorCount"
    by (simp add: new_EnigmaMachine_def)
next
  assume "(\<exists>e. run_rotors args = Inl e) \<or> (\<exists>e. new_Reflector (reflectorstr args) = Inl e)
        \<or> (\<exists>e. new_Plugboard (plugboardstr args) = Inl e)"
  then show "\<exists>e. run input args = Inl e" by (rule run_fails)
qed

theorem construction_failures_witness:
  "\<not> distinct repeated_wiring
   \<and> (\<exists>e. new_Rotor repeated_wiring (js ''R'') (js ''A'') (js ''A'') = Inl e \<and> OperationError e)
   \<and> (0::nat) < 1 \<and> 1 < length (split_ws shared_plugboard)
   \<and> 66 \<in> set (split_ws shared_plugboard ! 0) \<and> 66 \<in> set (split_ws shared_plugboard ! 1)
   \<and> (\<exists>e. new_Plugboard shared_plugboard = Inl e \<and> OperationError e)
   \<and> is_AZ 86 \<and> 86 \<notin> set short_reflector
   \<and> (\<exists>e. new_Reflector short_reflector = Inl e \<and> OperationError e)
   \<and> length ([] :: Rotor list) \<noteq> 3 \<and> length ([] :: Rotor list) \<noteq> 4
   \<and> new_EnigmaMachine [] [] [] = Inl RotorCount
   \<and> (\<exists>e. run (js ''AAAAA'') short_reflector_args = Inl e)"
proof -
  note t = construction_failures [where wiring = repeated_wiring and stepsStr = "js ''R''"
      and ringSetting = "js ''A''" and initialPosition = "js ''A''"
      and i = 0 and j = 1 and plugboardPairs = shared_plugboard and x = 66
      and c = 86 and reflectorPairs = short_reflector
      and rs = "[]" and rf = "[]" and pb = "[]"
      and args = short_reflector_args and input = "js ''AAAAA''"]
  have h1: "\<not> distinct repeated_wiring" by (simp add: repeated_wiring_def js_def)
  have sp: "split_ws shared_plugboard = [js ''AB'', js ''BC'']"
    by (simp add: shared_plugboard_def js_def split_ws_Cons split_ws_Nil is_ws_def)
  have h2: "(0::nat) < 1" "1 < length (split_ws shared_plugboard)"
    "66 \<in> set (split_ws shared_plugboard ! 0)" "66 \<in> set (split_ws shared_plugboard ! 1)"
    unfolding sp by (simp_all add: js_def)
  have h3: "is_AZ 86" "86 \<notin> set short_reflector"
    by (simp_all add: is_AZ_def short_reflector_def js_def)
  have h4: "length ([] :: Rotor list) \<noteq> 3" "length ([] :: Rotor list) \<noteq> 4" by simp_all
  from t h1
  have c1: "\<exists>e. new_Rotor repeated_wiring (js ''R'') (js ''A'') (js ''A'') = Inl e \<and> OperationError e"
    by simp
  from t h2 have c2: "\<exists>e. new_Plugboard shared_plugboard = Inl e \<and> OperationError e" by simp
  from t h3 have c3: "\<exists>e. new_Reflector short_reflector = Inl e \<and> OperationError e" by simp
  then have c3': "\<exists>e. new_Reflector short_reflector = Inl e" by (elim exE conjE) (rule exI)
  from t have c4: "new_EnigmaMachine [] [] [] = Inl RotorCount" by simp
  have r: "reflectorstr short_reflector_args = short_reflector"
    by (simp add: short_reflector_args_def)
  from t c3' have c5: "\<exists>e. run (js ''AAAAA'') short_reflector_args = Inl e"
    unfolding r by simp
  from h1 c1 h2 c2 h3 c3 h4 c4 c5 show ?thesis by (intro conjI)
qed

lemma last_dropWhile:
  assumes "dropWhile P xs \<noteq> []"
  shows "last (dropWhile P xs) = last xs"
  using assms
proof (induction xs)
  case Nil
  then show ?case by simp
next
  case (Cons a xs)
  show ?case
  proof (cases "P a")
    case True
    with Cons.prems have ne: "dropWhile P xs \<noteq> []" by simp
    then have "xs \<noteq> []" by (cases xs) simp_all
    with Cons.IH [OF ne] True show ?thesis by simp
  next
    case False
    then show ?thesis by simp
  qed
qed

lemma split_ws_leading:
  assumes "s \<noteq> []" and "is_ws (hd s)"
  shows "\<exists>ts. split_ws s = [] # ts"
proof (cases s)
  case Nil
  with assms(1) show ?thesis by simp
next
  case (Cons c cs)
  with assms(2) have "is_ws c" by simp
  then have "split_ws (c # cs) = [] # split_ws (dropWhile is_ws cs)"
    by (simp only: split_ws_Cons if_True)
  then show ?thesis unfolding Cons by (rule exI)
qed

lemma split_ws_trailing:
  assumes "s \<noteq> []" and "is_ws (last s)"
  shows "last (split_ws s) = []"
  using assms
proof (induction s rule: split_ws.induct)
  case (1 s)
  let ?tok = "takeWhile (\<lambda>c. \<not> is_ws c) s" and ?rest = "dropWhile (\<lambda>c. \<not> is_ws c) s"
  have "last s \<in> set s" using "1.prems"(1) by (rule last_in_set)
  with "1.prems"(2) have "\<not> (\<forall>x\<in>set s. \<not> is_ws x)" by blast
  then have ne: "?rest \<noteq> []" by (simp only: dropWhile_eq_Nil_conv not_False_eq_True)
  let ?d = "dropWhile is_ws ?rest"
  have sp: "split_ws s = ?tok # split_ws ?d"
    using ne by (subst split_ws.simps) (simp only: Let_def if_False)
  show ?case
  proof (cases "?d = []")
    case True
    show ?thesis unfolding sp True split_ws_Nil by simp
  next
    case False
    then have "last ?d = last ?rest" by (rule last_dropWhile)
    also have "\<dots> = last s" using ne by (rule last_dropWhile)
    finally have "is_ws (last ?d)" using "1.prems"(2) by (simp only:)
    from "1.IH" [OF refl refl ne False this] have "last (split_ws ?d) = []" .
    then show ?thesis
      unfolding sp using split_ws_not_Nil [of ?d] by (simp only: last.simps if_False)
  qed
qed

lemma add_pairs_bad_token:
  assumes "t \<in> set ts" and "\<not> match_AZ 2 2 t"
  shows "\<exists>e. add_pairs name ts [] = Inl e"
proof (rule not_Inr_Inl)
  fix m
  show "add_pairs name ts [] \<noteq> Inr m"
  proof
    assume "add_pairs name ts [] = Inr m"
    note sp = add_pairs_spec [OF this paired_Nil]
    note all = sp [THEN conjunct2, THEN conjunct2, THEN conjunct1]
    from all assms(1) have "match_AZ 2 2 t" by (rule bspec)
    with assms(2) show False by (rule notE)
  qed
qed

lemma new_Reflector_fails:
  assumes "new_PairMapBase s ''Reflector'' = Inl e"
  shows "new_Reflector s = Inl e"
  using assms by (simp add: new_Reflector_def)

text \<open>
  C10, as stated, fails for the reflector: constructed from the empty string it does not
  succeed with no pairs, it raises, because no letter is covered.
\<close>

theorem empty_reflector_counterexample:
  "new_Reflector [] = Inl ReflectorIncomplete"
  by (simp add: new_Reflector_def new_PairMapBase_def)

text \<open>
  C10, amended. From the empty string a plugboard is constructed with no pairs; the pair-map
  part of the reflector's construction also succeeds with no pairs, and the reflector's
  constructor then raises for the missing letters. A pair string that is not empty and starts
  or ends with white space, in particular one of white space only, has an empty piece after
  splitting, which is not two capital letters, and makes both constructors raise; when it
  starts with white space the error is that of the malformed pair.
\<close>

theorem pair_string_whitespace:
  "new_Plugboard [] = Inr []
   \<and> new_PairMapBase [] name = Inr []
   \<and> new_Reflector [] = Inl ReflectorIncomplete
   \<and> (pairs \<noteq> [] \<and> (is_ws (hd pairs) \<or> is_ws (last pairs)) \<longrightarrow>
        [] \<in> set (split_ws pairs) \<and> \<not> match_AZ 2 2 []
        \<and> (\<exists>e. new_Plugboard pairs = Inl e \<and> OperationError e)
        \<and> (\<exists>e. new_Reflector pairs = Inl e \<and> OperationError e))
   \<and> (pairs \<noteq> [] \<and> is_ws (hd pairs) \<longrightarrow>
        new_Plugboard pairs = Inl (PairFormat ''Plugboard'')
        \<and> new_Reflector pairs = Inl (PairFormat ''Reflector''))"
proof (intro conjI impI)
  show "new_Plugboard [] = Inr []" by (simp add: new_Plugboard_def new_PairMapBase_def)
  show "new_PairMapBase [] name = Inr []" by (simp add: new_PairMapBase_def)
  show "new_Reflector [] = Inl ReflectorIncomplete"
    by (simp add: new_Reflector_def new_PairMapBase_def)
  show nm: "\<not> match_AZ 2 2 []" by (simp add: match_AZ_def)
  {
    assume a: "pairs \<noteq> [] \<and> (is_ws (hd pairs) \<or> is_ws (last pairs))"
    then have ne: "pairs \<noteq> []" by simp
    show e: "[] \<in> set (split_ws pairs)"
    proof (cases "is_ws (hd pairs)")
      case True
      from split_ws_leading [OF ne True] obtain ts where "split_ws pairs = [] # ts" by (elim exE)
      then show ?thesis by simp
    next
      case False
      with a have "is_ws (last pairs)" by simp
      from split_ws_trailing [OF ne this] last_in_set [OF split_ws_not_Nil, of pairs]
      show ?thesis by simp
    qed
    from add_pairs_bad_token [OF e nm, of "''Plugboard''"] ne
    have "\<exists>e. new_Plugboard pairs = Inl e"
      by (simp add: new_Plugboard_def new_PairMapBase_def)
    then obtain e1 where e1: "new_Plugboard pairs = Inl e1" by (elim exE)
    from e1 new_Plugboard_error [OF e1]
    show "\<exists>e. new_Plugboard pairs = Inl e \<and> OperationError e" by (intro exI conjI)
    from add_pairs_bad_token [OF e nm, of "''Reflector''"] obtain e' where
      "add_pairs ''Reflector'' (split_ws pairs) [] = Inl e'" by (elim exE)
    with ne have "new_PairMapBase pairs ''Reflector'' = Inl e'" by (simp add: new_PairMapBase_def)
    from new_Reflector_fails [OF this] have e2: "new_Reflector pairs = Inl e'" .
    from e2 new_Reflector_error [OF e2]
    show "\<exists>e. new_Reflector pairs = Inl e \<and> OperationError e" by (intro exI conjI)
  }
  {
    assume a: "pairs \<noteq> [] \<and> is_ws (hd pairs)"
    then have "pairs \<noteq> []" "is_ws (hd pairs)" by simp_all
    from split_ws_leading [OF this] obtain ts where ts: "split_ws pairs = [] # ts"
      by (elim exE)
    from a ts nm show "new_Plugboard pairs = Inl (PairFormat ''Plugboard'')"
      by (simp add: new_Plugboard_def new_PairMapBase_def)
    from a ts nm show "new_Reflector pairs = Inl (PairFormat ''Reflector'')"
      by (simp add: new_Reflector_def new_PairMapBase_def)
  }
qed

theorem pair_string_whitespace_witness:
  "js '' AB '' \<noteq> [] \<and> is_ws (hd (js '' AB '')) \<and> is_ws (last (js '' AB ''))
   \<and> [] \<in> set (split_ws (js '' AB ''))
   \<and> (\<exists>e. new_Plugboard (js '' AB '') = Inl e \<and> OperationError e)
   \<and> (\<exists>e. new_Reflector (js '' AB '') = Inl e \<and> OperationError e)
   \<and> new_Plugboard (js '' AB '') = Inl (PairFormat ''Plugboard'')
   \<and> new_Reflector (js '' AB '') = Inl (PairFormat ''Reflector'')
   \<and> js ''AB '' \<noteq> [] \<and> is_ws (last (js ''AB ''))
   \<and> (\<exists>e. new_Plugboard (js ''AB '') = Inl e \<and> OperationError e)
   \<and> (\<exists>e. new_Reflector (js ''AB '') = Inl e \<and> OperationError e)"
proof -
  have h: "js '' AB '' \<noteq> []" "is_ws (hd (js '' AB ''))" "is_ws (last (js '' AB ''))"
    by (simp_all add: js_def is_ws_def)
  have h': "js ''AB '' \<noteq> []" "is_ws (last (js ''AB ''))"
    by (simp_all add: js_def is_ws_def)
  note t = pair_string_whitespace [where pairs = "js '' AB ''" and name = "''Plugboard''"]
  note t' = pair_string_whitespace [where pairs = "js ''AB ''" and name = "''Plugboard''"]
  from t h have c: "[] \<in> set (split_ws (js '' AB ''))"
    "\<exists>e. new_Plugboard (js '' AB '') = Inl e \<and> OperationError e"
    "\<exists>e. new_Reflector (js '' AB '') = Inl e \<and> OperationError e"
    "new_Plugboard (js '' AB '') = Inl (PairFormat ''Plugboard'')"
    "new_Reflector (js '' AB '') = Inl (PairFormat ''Reflector'')"
    by (simp_all add: OperationError_def)
  from t' h' have c': "\<exists>e. new_Plugboard (js ''AB '') = Inl e \<and> OperationError e"
    "\<exists>e. new_Reflector (js ''AB '') = Inl e \<and> OperationError e"
    by simp_all
  from h c h' c' show ?thesis by (intro conjI)
qed

end
